theory Spec2Isabelle
  imports Main
begin

section \<open>Elliptic-curve arithmetic of \<open>lab4/ecc_logic.py\<close>\<close>

text \<open>
  Python integers are unbounded, so they are modelled as \<open>int\<close>. Python's \<open>//\<close> and
  \<open>%\<close> round towards minus infinity, exactly as \<open>div\<close> and \<open>mod\<close> on \<open>int\<close> do (also for a
  negative divisor); where the divisor may be zero the raise is written out.
  Every \<open>raise\<close> of the module is a value of \<open>error\<close>; the module raises
  \<open>ValueError\<close> with different messages, which are kept apart here under the names the
  specification gives them. The interpreter's recursion limit is not modelled.
\<close>

datatype error =
    InvalidModulusError       \<comment> \<open>\<open>ValueError\<close>: p must be an odd prime / p must be greater than 2\<close>
  | NoInverseError            \<comment> \<open>\<open>ValueError\<close> of \<open>mod_inv\<close>\<close>
  | PointNotOnCurveError      \<comment> \<open>\<open>ValueError\<close> of \<open>Point.__init__\<close>\<close>
  | CurveMismatchError        \<comment> \<open>\<open>ValueError\<close> of \<open>Point.__add__\<close>\<close>
  | InvalidScalarError        \<comment> \<open>\<open>ValueError\<close> of \<open>Point.__rmul__\<close>\<close>
  | NoNonResidueFoundError    \<comment> \<open>\<open>RuntimeError\<close> of \<open>tonelli_shanks\<close>\<close>
  | TypeError
  | ZeroDivisionError
  | Diverges                  \<comment> \<open>no exception: a loop that does not return\<close>

subsection \<open>Modular arithmetic\<close>

function extended_gcd :: "int \<Rightarrow> int \<Rightarrow> int \<times> int \<times> int" where
  "extended_gcd a b =
     (if a = 0 then (b, 0, 1)
      else (case extended_gcd (b mod a) a of
              (d, x1, y1) \<Rightarrow> (d, y1 - (b div a) * x1, x1)))"
  by pat_completeness auto
termination
  by (relation "measure (\<lambda>(a, b). nat \<bar>a\<bar>)") (auto simp: abs_mod_less)

declare extended_gcd.simps [simp del]

definition mod_inv :: "int \<Rightarrow> int \<Rightarrow> error + int" where
  "mod_inv a m =
     (case extended_gcd a m of
        (d, x, y) \<Rightarrow>
          if d \<noteq> 1 then Inl NoInverseError
          else if m = 0 then Inl ZeroDivisionError
          else Inr (x mod m))"

text \<open>
  The three-argument \<open>pow(a, e, m)\<close>. Every call of the module has \<open>e \<ge> 0\<close>, and \<open>m \<noteq> 0\<close>
  is guarded at each call site below.
\<close>

definition pow_mod :: "int \<Rightarrow> int \<Rightarrow> int \<Rightarrow> int" where
  "pow_mod a e m = (a ^ nat e) mod m"

definition legendre_symbol :: "int \<Rightarrow> int \<Rightarrow> error + int" where
  "legendre_symbol a p =
     (if p \<le> 2 then Inl InvalidModulusError
      else (let a' = a mod p;
                ls = pow_mod a' ((p - 1) div 2) p
            in Inr (if ls \<noteq> p - 1 then ls else - 1)))"

text \<open>\<open>sorted(list(set([u, v])))\<close>.\<close>

definition sorted_set2 :: "int \<Rightarrow> int \<Rightarrow> int list" where
  "sorted_set2 u v = (if u = v then [u] else if u < v then [u, v] else [v, u])"

text \<open>
  Step 1 of Tonelli-Shanks, \<open>while Q % 2 == 0: S += 1; Q //= 2\<close>. The loop does not end
  for \<open>Q = 0\<close>, hence the option monad; \<open>split_twos_terminates\<close> shows that it ends for
  every \<open>Q > 0\<close>, and \<open>tonelli_shanks\<close> calls it with \<open>Q = p - 1 \<ge> 2\<close>. In
  \<open>tonelli_shanks\<close> the value \<open>None\<close> of the loop becomes \<open>Diverges\<close>.
\<close>

partial_function (option) split_twos :: "int \<Rightarrow> int \<Rightarrow> (int \<times> int) option" where
  "split_twos Q S = (if Q mod 2 = 0 then split_twos (Q div 2) (S + 1) else Some (Q, S))"

declare split_twos.simps [code]

text \<open>
  Step 2, the search for a quadratic non-residue:
  \<open>while legendre_symbol(z, p) != -1: z += 1; if z >= p: raise RuntimeError\<close>.
\<close>

function find_z :: "int \<Rightarrow> int \<Rightarrow> error + int" where
  "find_z z p =
     (case legendre_symbol z p of
        Inl e \<Rightarrow> Inl e
      | Inr ls \<Rightarrow>
          if ls \<noteq> - 1 then
            (if z + 1 \<ge> p then Inl NoNonResidueFoundError else find_z (z + 1) p)
          else Inr z)"
  by pat_completeness auto
termination
  by (relation "measure (\<lambda>(z, p). nat (p - z))") auto

declare find_z.simps [simp del]

text \<open>
  The inner \<open>for i_pow in range(1, M)\<close> of step 4: the result is the first \<open>i_pow\<close> whose
  repeated square is 1, and 0 (the initial value of \<open>i\<close>) when the range is used up.
\<close>

function find_i :: "int \<Rightarrow> int \<Rightarrow> int \<Rightarrow> int \<Rightarrow> int" where
  "find_i p temp i_pow M =
     (if i_pow < M then
        (let temp' = pow_mod temp 2 p
         in if temp' = 1 then i_pow else find_i p temp' (i_pow + 1) M)
      else 0)"
  by pat_completeness auto
termination
  by (relation "measure (\<lambda>(p, temp, i_pow, M). nat (M - i_pow))") auto

declare find_i.simps [simp del]

lemma find_i_range:
  "1 \<le> i_pow \<Longrightarrow>
   find_i p temp i_pow M = 0 \<or> (i_pow \<le> find_i p temp i_pow M \<and> find_i p temp i_pow M < M)"
proof (induction p temp i_pow M rule: find_i.induct)
  case (1 p temp i_pow M)
  show ?case
  proof (cases "i_pow < M")
    case False
    then show ?thesis by (simp add: find_i.simps [of p temp i_pow M])
  next
    case True
    show ?thesis
    proof (cases "pow_mod temp 2 p = 1")
      case True
      with \<open>i_pow < M\<close> show ?thesis by (simp add: find_i.simps [of p temp i_pow M])
    next
      case False
      from "1.IH" [OF \<open>i_pow < M\<close> refl False] "1.prems"
      have "find_i p (pow_mod temp 2 p) (i_pow + 1) M = 0
            \<or> (i_pow + 1 \<le> find_i p (pow_mod temp 2 p) (i_pow + 1) M
               \<and> find_i p (pow_mod temp 2 p) (i_pow + 1) M < M)"
        by simp
      with False \<open>i_pow < M\<close> show ?thesis
        by (auto simp add: find_i.simps [of p temp i_pow M] Let_def)
    qed
  qed
qed

text \<open>
  Step 4, the main loop \<open>while t != 1\<close>, with its \<open>break\<close> when no \<open>i\<close> is found; the
  result is the final \<open>R\<close>. The shift \<open>1 << (M - i - 1)\<close> has a non-negative count, since
  \<open>i < M\<close> (\<open>find_i_range\<close>).
\<close>

function ts_loop :: "int \<Rightarrow> int \<Rightarrow> int \<Rightarrow> int \<Rightarrow> int \<Rightarrow> int" where
  "ts_loop p M c t R =
     (if t \<noteq> 1 then
        (let i = find_i p t 1 M
         in if i = 0 then R
            else (let exponent = 2 ^ nat (M - i - 1);
                      b = pow_mod c exponent p;
                      c' = pow_mod b 2 p
                  in ts_loop p i c' ((t * c') mod p) ((R * b) mod p)))
      else R)"
  by pat_completeness auto
termination
proof (relation "measure (\<lambda>(p, M, c, t, R). nat M)", goal_cases)
  case 1
  show ?case by simp
next
  case (2 p M c t R i)
  with find_i_range [of 1 p t M] show ?case by auto
qed

declare ts_loop.simps [simp del]

definition tonelli_shanks :: "int \<Rightarrow> int \<Rightarrow> error + int list" where
  "tonelli_shanks n0 p =
     (if p \<le> 2 then Inl InvalidModulusError
      else (let n = n0 mod p in
        if n = 0 then Inr [0]
        else (case legendre_symbol n p of
                Inl e \<Rightarrow> Inl e
              | Inr ls \<Rightarrow>
                  if ls \<noteq> 1 then Inr []
                  else if p mod 4 = 3 then
                    (let x = pow_mod n ((p + 1) div 4) p in Inr (sorted_set2 x (p - x)))
                  else (case split_twos (p - 1) 0 of
                          None \<Rightarrow> Inl Diverges
                        | Some (Q, S) \<Rightarrow>
                            (case find_z 2 p of
                               Inl e \<Rightarrow> Inl e
                             | Inr z \<Rightarrow>
                                 (let R = ts_loop p S (pow_mod z Q p) (pow_mod n Q p)
                                            (pow_mod n ((Q + 1) div 2) p)
                                  in Inr (sorted_set2 R (p - R))))))))"

subsection \<open>The class \<open>Point\<close>\<close>

text \<open>
  The attributes \<open>x\<close>, \<open>y\<close>, \<open>a\<close>, \<open>b\<close>, \<open>p\<close> of a \<open>Point\<close> object; they are named
  \<open>Px\<close>, ..., \<open>Pp\<close> here so that \<open>x\<close> and \<open>p\<close> stay free for variables.
  A coordinate that is \<open>None\<close> in Python is \<open>None\<close> here.
\<close>

record Point =
  Px :: "int option"
  Py :: "int option"
  Pa :: int
  Pb :: int
  Pp :: int

text \<open>What the right-hand side of \<open>==\<close> or \<open>+\<close> can be: \<open>None\<close>, a \<open>Point\<close>, anything else.\<close>

datatype pyval = PyNone | PyPoint Point | PyOther

text \<open>
  \<open>is_on_curve\<close>, as \<open>__init__\<close> calls it: after the check \<open>p > 2\<close>, so that the modulus
  of \<open>pow\<close> and \<open>%\<close> is not zero.
\<close>

definition is_on_curve :: "Point \<Rightarrow> bool" where
  "is_on_curve P =
     (case (Px P, Py P) of
        (None, None) \<Rightarrow> True
      | (Some x, Some y) \<Rightarrow>
          pow_mod y 2 (Pp P) = (pow_mod x 3 (Pp P) + Pa P * x + Pb P) mod Pp P
      | _ \<Rightarrow> False)"

text \<open>\<open>Point.__init__\<close>: the new object, or the error the constructor raises.\<close>

definition Point_init :: "int option \<Rightarrow> int option \<Rightarrow> int \<Rightarrow> int \<Rightarrow> int \<Rightarrow> error + Point" where
  "Point_init x y a b p =
     (let self = \<lparr>Px = x, Py = y, Pa = a, Pb = b, Pp = p\<rparr>
      in if x = None \<and> y = None then Inr self
         else if p \<le> 2 then Inl InvalidModulusError
         else if \<not> is_on_curve self then Inl PointNotOnCurveError
         else Inr self)"

text \<open>\<open>Point.__eq__\<close>.\<close>

definition Point_eq :: "Point \<Rightarrow> pyval \<Rightarrow> bool" where
  "Point_eq self other =
     (case other of
        PyNone \<Rightarrow> Px self = None \<and> Py self = None
      | PyOther \<Rightarrow> False
      | PyPoint other \<Rightarrow>
          Px self = Px other \<and> Py self = Py other \<and>
          Pa self = Pa other \<and> Pb self = Pb other \<and> Pp self = Pp other)"

text \<open>\<open>Point.__neg__\<close>. A missing \<open>y\<close> beside a present \<open>x\<close> makes \<open>-self.y\<close> a \<open>TypeError\<close>.\<close>

definition Point_neg :: "Point \<Rightarrow> error + Point" where
  "Point_neg self =
     (case Px self of
        None \<Rightarrow> Inr self
      | Some x \<Rightarrow>
          (case Py self of
             None \<Rightarrow> Inl TypeError
           | Some y \<Rightarrow>
               if Pp self = 0 then Inl ZeroDivisionError
               else Point_init (Some x) (Some ((- y) mod Pp self)) (Pa self) (Pb self) (Pp self)))"

text \<open>
  \<open>Point.__add__\<close> on two \<open>Point\<close> objects. The slope and the new coordinates are
  computed in \<open>add_affine\<close>, the part of the method below the two identity shortcuts
  (\<open>add_finish\<close> is its common tail, from the inverse of the denominator on).
  With both \<open>x\<close> present, a missing \<open>y\<close> raises \<open>TypeError\<close> at the first arithmetic on
  it, and \<open>p = 0\<close> raises \<open>ZeroDivisionError\<close> at the first \<open>%\<close>.
\<close>

definition add_finish :: "int \<Rightarrow> int \<Rightarrow> int \<Rightarrow> int \<Rightarrow> int \<Rightarrow> int \<Rightarrow> int \<Rightarrow> int \<Rightarrow> error + Point" where
  "add_finish x1 y1 x2 a b p num den =
     (case mod_inv den p of
        Inl e \<Rightarrow> Inl e
      | Inr den_inv \<Rightarrow>
          (let l = (num * den_inv) mod p;
               x3 = (pow_mod l 2 p - x1 - x2) mod p;
               y3 = (l * (x1 - x3) - y1) mod p
           in Point_init (Some x3) (Some y3) a b p))"

definition add_affine :: "int \<Rightarrow> int \<Rightarrow> int \<Rightarrow> int \<Rightarrow> int \<Rightarrow> int \<Rightarrow> int \<Rightarrow> error + Point" where
  "add_affine x1 y1 x2 y2 a b p =
     (if x1 = x2 \<and> y1 = (- y2) mod p then Point_init None None a b p
      else if x1 = x2 \<and> y1 = y2 then
        (if y1 = 0 then Point_init None None a b p
         else add_finish x1 y1 x2 a b p ((3 * pow_mod x1 2 p + a) mod p) ((2 * y1) mod p))
      else add_finish x1 y1 x2 a b p ((y2 - y1) mod p) ((x2 - x1) mod p))"

definition Point_add :: "Point \<Rightarrow> Point \<Rightarrow> error + Point" where
  "Point_add self other =
     (if Pp self \<noteq> Pp other \<or> Pa self \<noteq> Pa other \<or> Pb self \<noteq> Pb other
      then Inl CurveMismatchError
      else (case Px self of
              None \<Rightarrow> Inr other
            | Some x1 \<Rightarrow>
                (case Px other of
                   None \<Rightarrow> Inr self
                 | Some x2 \<Rightarrow>
                     (case Py other of
                        None \<Rightarrow> Inl TypeError
                      | Some y2 \<Rightarrow>
                          (case Py self of
                             None \<Rightarrow>
                               if x1 = x2 \<and> Pp self = 0 then Inl ZeroDivisionError
                               else Inl TypeError
                           | Some y1 \<Rightarrow>
                               if Pp self = 0 then Inl ZeroDivisionError
                               else add_affine x1 y1 x2 y2 (Pa self) (Pb self) (Pp self))))))"

text \<open>\<open>self + other\<close> for any right-hand side: \<open>isinstance(other, Point)\<close> comes first.\<close>

definition Point_add_obj :: "Point \<Rightarrow> pyval \<Rightarrow> error + Point" where
  "Point_add_obj self other =
     (case other of PyPoint Q \<Rightarrow> Point_add self Q | _ \<Rightarrow> Inl TypeError)"

text \<open>
  \<open>Point.__rmul__\<close>, the scalar multiple \<open>k * self\<close> for an integer \<open>k\<close>: the loop
  \<open>while k > 0\<close> of double-and-add doubles \<open>current\<close> also after the last bit.
\<close>

function rmul_loop :: "int \<Rightarrow> Point \<Rightarrow> Point \<Rightarrow> error + Point" where
  "rmul_loop k result current =
     (if k > 0 then
        (case (if k mod 2 = 1 then Point_add result current else Inr result) of
           Inl e \<Rightarrow> Inl e
         | Inr result' \<Rightarrow>
             (case Point_add current current of
                Inl e \<Rightarrow> Inl e
              | Inr current' \<Rightarrow> rmul_loop (k div 2) result' current'))
      else Inr result)"
  by pat_completeness auto
termination
  by (relation "measure (\<lambda>(k, result, current). nat k)") auto

declare rmul_loop.simps [simp del]

definition Point_rmul :: "int \<Rightarrow> Point \<Rightarrow> error + Point" where
  "Point_rmul k self =
     (if k < 0 then Inl InvalidScalarError
      else (case Point_init None None (Pa self) (Pb self) (Pp self) of
              Inl e \<Rightarrow> Inl e
            | Inr Oid \<Rightarrow>
                if k = 0 then Inr Oid
                else if Px self = None then Inr Oid
                else rmul_loop k Oid self))"

subsection \<open>Curve analysis\<close>

text \<open>
  \<open>find_order_brute_force\<close>. The readings of \<open>time.time()\<close> are the sequence \<open>clk\<close>:
  reading 0 is \<open>start_time\<close>, and \<open>ticks\<close> counts the readings taken so far (one more
  each time \<open>order\<close> is a multiple of 100000, for the progress message). The local \<open>O\<close>
  of the source is \<open>Oid\<close>. The result is the pair of the order (\<open>None\<close> when the cap is
  reached) and the elapsed time.
\<close>

function order_loop ::
  "(nat \<Rightarrow> 't::{zero,minus}) \<Rightarrow> Point \<Rightarrow> Point \<Rightarrow> int \<Rightarrow> Point \<Rightarrow> int \<Rightarrow> nat
     \<Rightarrow> error + (int option \<times> 't)" where
  "order_loop clk G Oid max_iterations current_point order ticks =
     (if order \<le> max_iterations then
        (case Point_add current_point G of
           Inl e \<Rightarrow> Inl e
         | Inr next_point \<Rightarrow>
             if Point_eq next_point (PyPoint Oid)
             then Inr (Some (order + 1), clk ticks - clk 0)
             else order_loop clk G Oid max_iterations next_point (order + 1)
                    (if (order + 1) mod 100000 = 0 then ticks + 1 else ticks))
      else Inr (None, clk ticks - clk 0))"
  by pat_completeness auto
termination
  by (relation "measure (\<lambda>(clk, G, Oid, max_iterations, current_point, order, ticks).
        nat (max_iterations + 1 - order))") auto

declare order_loop.simps [simp del]

definition find_order_brute_force ::
  "(nat \<Rightarrow> 't::{zero,minus}) \<Rightarrow> Point \<Rightarrow> error + (int option \<times> 't)" where
  "find_order_brute_force clk G =
     (if Px G = None then Inr (Some 1, 0)
      else (case Point_init None None (Pa G) (Pb G) (Pp G) of
              Inl e \<Rightarrow> Inl e
            | Inr Oid \<Rightarrow> order_loop clk G Oid (2 * Pp G + 2) G 1 1))"

text \<open>
  \<open>find_points_on_curve\<close>. The inner \<open>for y in roots\<close> either uses up the roots or leaves
  the function at the limit (\<open>Inl\<close>: the lists to return); the \<open>try\<close> around the call of
  \<open>tonelli_shanks\<close> catches every exception and goes on with the next \<open>x\<close>.
\<close>

fun emit_roots ::
  "int \<Rightarrow> int \<Rightarrow> int list \<Rightarrow> int list \<times> int list \<times> int
     \<Rightarrow> (int list \<times> int list) + (int list \<times> int list \<times> int)" where
  "emit_roots max_total_points x [] st = Inr st"
| "emit_roots max_total_points x (y # roots) (points_x, points_y, count) =
     (let points_x' = points_x @ [x]; points_y' = points_y @ [y]; count' = count + 1
      in if count' \<ge> max_total_points then Inl (points_x', points_y')
         else emit_roots max_total_points x roots (points_x', points_y', count'))"

function points_loop ::
  "int \<Rightarrow> int \<Rightarrow> int \<Rightarrow> int \<Rightarrow> int \<Rightarrow> int \<Rightarrow> int list \<times> int list \<times> int
     \<Rightarrow> int list \<times> int list" where
  "points_loop a b p x_limit max_total_points x st =
     (if x < x_limit then
        (let rhs = (pow_mod x 3 p + a * x + b) mod p
         in case tonelli_shanks rhs p of
              Inl e \<Rightarrow> points_loop a b p x_limit max_total_points (x + 1) st
            | Inr roots \<Rightarrow>
                (case emit_roots max_total_points x roots st of
                   Inl res \<Rightarrow> res
                 | Inr st' \<Rightarrow> points_loop a b p x_limit max_total_points (x + 1) st'))
      else (fst st, fst (snd st)))"
  by pat_completeness auto
termination
  by (relation "measure (\<lambda>(a, b, p, x_limit, max_total_points, x, st). nat (x_limit - x))") auto

declare points_loop.simps [simp del]

definition find_points_on_curve :: "int \<Rightarrow> int \<Rightarrow> int \<Rightarrow> int \<Rightarrow> int \<Rightarrow> int list \<times> int list" where
  "find_points_on_curve a b p x_limit max_total_points =
     (if p \<le> 2 then ([], [])
      else points_loop a b p x_limit max_total_points 0 ([], [], 0))"

text \<open>
  \<open>validate_curve\<close>, its boolean result. The trial division of the source only prints a
  warning and does not change the result. It takes \<open>int(math.sqrt(p))\<close> of an odd \<open>p\<close>,
  which raises \<open>OverflowError\<close> when \<open>p\<close> is too large for a float (from about
  \<open>2 ^ 1024\<close>); this is not modelled, and the definition stands for smaller \<open>p\<close>.
\<close>

definition validate_curve :: "int \<Rightarrow> int \<Rightarrow> int \<Rightarrow> bool" where
  "validate_curve a b p =
     (if p \<le> 2 then False
      else (let discriminant = (4 * pow_mod a 3 p + 27 * pow_mod b 2 p) mod p
            in discriminant \<noteq> 0))"

text \<open>
  The value of \<open>current_point\<close> in \<open>find_order_brute_force\<close> after \<open>k\<close> additions of \<open>G\<close>,
  computed outside the loop: the yardstick for what the loop meets.
\<close>

fun accumulator :: "Point \<Rightarrow> nat \<Rightarrow> error + Point" where
  "accumulator G 0 = Inr G"
| "accumulator G (Suc k) =
     (case accumulator G k of Inl e \<Rightarrow> Inl e | Inr current_point \<Rightarrow> Point_add current_point G)"

text \<open>
  The additions number 1 to \<open>k - 1\<close> of the search all return a point, and none of these
  points equals \<open>Oid\<close>: the loop is still running when it comes to addition number \<open>k\<close>.
\<close>

definition no_identity_before :: "Point \<Rightarrow> Point \<Rightarrow> nat \<Rightarrow> bool" where
  "no_identity_before G Oid k \<longleftrightarrow>
     (\<forall>j\<in>{1..<k}. case accumulator G j of
                     Inl e \<Rightarrow> False
                   | Inr R \<Rightarrow> \<not> Point_eq R (PyPoint Oid))"

subsection \<open>Notions used in the properties\<close>

text \<open>
  An odd prime: greater than 2 and without a divisor between 2 and \<open>p - 1\<close>.
\<close>

definition odd_prime :: "int \<Rightarrow> bool" where
  "odd_prime p \<longleftrightarrow> 2 < p \<and> (\<forall>d\<in>{2..<p}. \<not> d dvd p)"

text \<open>
  Polynomials with integer coefficients as coefficient lists, lowest degree first, their
  value by Horner's rule, the quotient of the division by \<open>x - r\<close>, and the roots modulo
  \<open>p\<close> among the residues \<open>0 .. p - 1\<close>. They serve to bound the number of solutions of
  \<open>x\<^sup>k \<equiv> 1\<close>, which shows that the search for a non-residue in \<open>tonelli_shanks\<close> succeeds.
\<close>

fun horner :: "int list \<Rightarrow> int \<Rightarrow> int" where
  "horner [] x = 0"
| "horner (c # cs) x = c + x * horner cs x"

fun quot :: "int list \<Rightarrow> int \<Rightarrow> int list" where
  "quot [] r = []"
| "quot [c] r = []"
| "quot (c # c' # cs) r = horner (c' # cs) r # quot (c' # cs) r"

definition mod_roots :: "int \<Rightarrow> int list \<Rightarrow> int set" where
  "mod_roots p cs = {x \<in> {0..<p}. p dvd horner cs x}"

text \<open>
  A point of the curve \<open>(a, b, p)\<close> as the data model describes it: the identity, or
  coordinates in \<open>0 .. p - 1\<close> that satisfy the curve equation. The coordinates that
  \<open>__neg__\<close> and \<open>__add__\<close> compute are reduced modulo \<open>p\<close>; those given to
  \<open>__init__\<close> are stored as they are.
\<close>

definition reduced_point :: "int \<Rightarrow> int \<Rightarrow> int \<Rightarrow> Point \<Rightarrow> bool" where
  "reduced_point a b p P \<longleftrightarrow>
     Pa P = a \<and> Pb P = b \<and> Pp P = p \<and>
     (case (Px P, Py P) of
        (None, None) \<Rightarrow> True
      | (Some x, Some y) \<Rightarrow> 0 \<le> x \<and> x < p \<and> 0 \<le> y \<and> y < p \<and> is_on_curve P
      | _ \<Rightarrow> False)"

text \<open>
  A pair \<open>(x, y)\<close> that satisfies the curve equation modulo \<open>p\<close>; the invariant of the
  state \<open>(points_x, points_y, count)\<close> of \<open>find_points_on_curve\<close> while it goes on; and
  what is required of the lists it returns.
\<close>

definition on_curve_mod :: "int \<Rightarrow> int \<Rightarrow> int \<Rightarrow> int \<times> int \<Rightarrow> bool" where
  "on_curve_mod a b p xy = (case xy of (x, y) \<Rightarrow> y ^ 2 mod p = (x ^ 3 + a * x + b) mod p)"

definition points_inv :: "int \<Rightarrow> int \<Rightarrow> int \<Rightarrow> int \<Rightarrow> int list \<times> int list \<times> int \<Rightarrow> bool" where
  "points_inv a b p max_total_points st =
     (case st of (points_x, points_y, count) \<Rightarrow>
        length points_x = length points_y \<and> count = int (length points_x) \<and>
        count < max_total_points \<and> list_all (on_curve_mod a b p) (zip points_x points_y))"

definition points_ok :: "int \<Rightarrow> int \<Rightarrow> int \<Rightarrow> int \<Rightarrow> int list \<times> int list \<Rightarrow> bool" where
  "points_ok a b p max_total_points res =
     (case res of (xs, ys) \<Rightarrow>
        length xs = length ys \<and> int (length xs) \<le> max_total_points \<and>
        list_all (on_curve_mod a b p) (zip xs ys))"

section \<open>Properties\<close>

subsection \<open>Extended Euclid and the modular inverse\<close>

lemma extended_gcd_0: "extended_gcd 0 b = (b, 0, 1)"
  by (simp add: extended_gcd.simps [of 0 b])

lemma extended_gcd_rec:
  "a \<noteq> 0 \<Longrightarrow> extended_gcd a b =
     (case extended_gcd (b mod a) a of (d, x1, y1) \<Rightarrow> (d, y1 - (b div a) * x1, x1))"
  by (simp add: extended_gcd.simps [of a b])

lemma extended_gcd_bezout:
  "extended_gcd a b = (g, x, y) \<Longrightarrow> g = a * x + b * y"
proof (induction a b arbitrary: g x y rule: extended_gcd.induct)
  case (1 a b)
  show ?case
  proof (cases "a = 0")
    case True
    with "1.prems" show ?thesis by (simp add: extended_gcd_0)
  next
    case False
    obtain d x1 y1 where r: "extended_gcd (b mod a) a = (d, x1, y1)"
      by (cases "extended_gcd (b mod a) a") auto
    from "1.IH" [OF False r] have d: "d = (b mod a) * x1 + a * y1" .
    from "1.prems" False r have g: "g = d" and x: "x = y1 - (b div a) * x1" and y: "y = x1"
      by (auto simp add: extended_gcd_rec)
    have m: "b mod a = b - a * (b div a)"
      by (simp add: minus_mult_div_eq_mod)
    show ?thesis unfolding g x y d m by (simp add: algebra_simps)
  qed
qed

lemma extended_gcd_sign:
  "fst (extended_gcd a b) = (if a = 0 then b else sgn a * gcd a b)"
proof (induction a b rule: extended_gcd.induct)
  case (1 a b)
  show ?case
  proof (cases "a = 0")
    case True
    then show ?thesis by (simp add: extended_gcd_0)
  next
    case False
    have step: "fst (extended_gcd a b) = fst (extended_gcd (b mod a) a)"
      using False by (simp add: extended_gcd_rec split: prod.splits)
    show ?thesis
    proof (cases "b mod a = 0")
      case True
      then have "a dvd b" by (simp add: dvd_eq_mod_eq_0)
      then have "gcd a b = \<bar>a\<bar>" by (simp add: gcd_proj1_iff)
      moreover have "fst (extended_gcd (b mod a) a) = a"
        using True "1.IH" [OF False] by simp
      ultimately show ?thesis using False step by (simp add: sgn_mult_abs)
    next
      case nz: False
      then have "\<not> a dvd b" by (simp add: dvd_eq_mod_eq_0)
      with False have "sgn (b mod a) = sgn a" by (simp add: sgn_mod)
      moreover have "gcd (b mod a) a = gcd a b"
        by (metis gcd.commute gcd_red_int)
      ultimately show ?thesis using nz False step "1.IH" [OF False] by simp
    qed
  qed
qed

text \<open>
  Claim C8, as stated: for all integers \<open>a\<close> and \<open>b\<close> the first component of
  \<open>extended_gcd(a, b)\<close> is \<open>gcd(a, b)\<close>. It fails at \<open>a = 0\<close>, \<open>b = -5\<close>: the function
  returns \<open>(-5, 0, 1)\<close>, and the greatest common divisor is 5.
\<close>

theorem extended_gcd_counterexample:
  "\<not> (case extended_gcd 0 (- 5) of (g, x, y) \<Rightarrow> g = gcd 0 (- 5) \<and> g = 0 * x + (- 5) * y)"
  by (simp add: extended_gcd_0)

text \<open>
  Claim C8, amended: for all integers \<open>a\<close> and \<open>b\<close>, \<open>extended_gcd(a, b)\<close> returns
  \<open>(g, x, y)\<close> with \<open>g = a*x + b*y\<close> and \<open>|g| = gcd(a, b)\<close>; \<open>g\<close> has the sign of \<open>a\<close>
  (and is \<open>b\<close> itself for \<open>a = 0\<close>), so that \<open>g = gcd(a, b)\<close> exactly when \<open>a > 0\<close>, or
  \<open>a = 0\<close> and \<open>b \<ge> 0\<close>.
\<close>

theorem extended_gcd_correct:
  "case extended_gcd a b of (g, x, y) \<Rightarrow>
     g = a * x + b * y \<and> \<bar>g\<bar> = gcd a b \<and>
     g = (if a = 0 then b else sgn a * gcd a b) \<and>
     (g = gcd a b \<longleftrightarrow> 0 < a \<or> (a = 0 \<and> 0 \<le> b))"
proof -
  obtain g x y where r: "extended_gcd a b = (g, x, y)"
    by (cases "extended_gcd a b") auto
  have bez: "g = a * x + b * y" using r by (rule extended_gcd_bezout)
  have sg: "g = (if a = 0 then b else sgn a * gcd a b)"
    using extended_gcd_sign [of a b] r by simp
  have ab: "\<bar>g\<bar> = gcd a b"
  proof (cases "a = 0")
    case True with sg show ?thesis by simp
  next
    case False
    with sg show ?thesis by (simp add: abs_mult)
  qed
  have iff: "g = gcd a b \<longleftrightarrow> 0 < a \<or> (a = 0 \<and> 0 \<le> b)"
  proof (cases "a = 0")
    case True with sg show ?thesis by auto
  next
    case False
    then have pos: "0 < gcd a b" by simp
    show ?thesis
    proof (cases "0 < a")
      case True with sg show ?thesis by simp
    next
      case neg: False
      with False have "sgn a = - 1" by simp
      with sg False have "g = - gcd a b" by simp
      with pos neg False show ?thesis by auto
    qed
  qed
  from bez ab sg iff r show ?thesis by simp
qed

lemma mod_inv_raises:
  "mod_inv a m = Inl NoInverseError \<longleftrightarrow> fst (extended_gcd a m) \<noteq> 1"
  by (simp add: mod_inv_def split: prod.splits)

text \<open>
  Claim C6, as stated: \<open>mod_inv(a, m)\<close> raises \<open>NoInverseError\<close> if and only if
  \<open>gcd(a, m) \<noteq> 1\<close>. It fails at \<open>a = -2\<close>, \<open>m = 3\<close>: the two are coprime and 1 is an
  inverse of \<open>-2\<close> modulo 3, yet \<open>extended_gcd\<close> returns \<open>g = -1\<close> and \<open>mod_inv\<close> raises.
\<close>

theorem mod_inv_counterexample:
  "mod_inv (- 2) 3 = Inl NoInverseError \<and> gcd (- 2) (3::int) = 1 \<and> ((- 2) * 1) mod 3 = (1::int)"
  by code_simp

text \<open>
  Claim C6, amended: for \<open>a > 0\<close>, or \<open>a = 0\<close> and \<open>m \<ge> 0\<close>, \<open>mod_inv(a, m)\<close> raises
  \<open>NoInverseError\<close> if and only if \<open>gcd(a, m) \<noteq> 1\<close>; and whenever it does not raise
  \<open>NoInverseError\<close> and \<open>m > 0\<close>, it returns a value \<open>r\<close> with \<open>0 \<le> r < m\<close> and
  \<open>a * r \<equiv> 1 (mod m)\<close>.
\<close>

theorem mod_inv_correct:
  "(0 < a \<or> (a = 0 \<and> 0 \<le> m) \<longrightarrow> (mod_inv a m = Inl NoInverseError \<longleftrightarrow> gcd a m \<noteq> 1)) \<and>
   (0 < m \<longrightarrow> mod_inv a m \<noteq> Inl NoInverseError \<longrightarrow>
      (\<exists>r. mod_inv a m = Inr r \<and> 0 \<le> r \<and> r < m \<and> (a * r) mod m = 1 mod m))"
proof (intro conjI impI)
  assume dom: "0 < a \<or> (a = 0 \<and> 0 \<le> m)"
  have "fst (extended_gcd a m) = gcd a m"
    using dom by (auto simp add: extended_gcd_sign)
  then show "mod_inv a m = Inl NoInverseError \<longleftrightarrow> gcd a m \<noteq> 1"
    by (simp add: mod_inv_raises)
next
  assume m: "0 < m" and ok: "mod_inv a m \<noteq> Inl NoInverseError"
  obtain d x y where r: "extended_gcd a m = (d, x, y)"
    by (cases "extended_gcd a m") auto
  from ok r have d: "d = 1" by (simp add: mod_inv_raises)
  from r d m have res: "mod_inv a m = Inr (x mod m)" by (simp add: mod_inv_def)
  from extended_gcd_bezout [OF r] d have "a * x = 1 - m * y" by simp
  then have "(a * x) mod m = 1 mod m"
    by (metis diff_conv_add_uminus mod_mult_self2 mult_minus_right)
  then have "(a * (x mod m)) mod m = 1 mod m" by (simp add: mod_mult_right_eq)
  with res m show "\<exists>r. mod_inv a m = Inr r \<and> 0 \<le> r \<and> r < m \<and> (a * r) mod m = 1 mod m"
    by simp
qed

theorem mod_inv_correct_witness:
  "(0::int) < 3 \<and> (0::int) < 7 \<and> mod_inv 3 7 \<noteq> Inl NoInverseError \<and> gcd (3::int) 7 = 1 \<and>
   (\<exists>r. mod_inv 3 7 = Inr r \<and> 0 \<le> r \<and> r < 7 \<and> (3 * r) mod 7 = 1 mod 7)"
proof -
  have e: "mod_inv 3 7 = Inr 5" by code_simp
  then have ok: "mod_inv 3 7 \<noteq> Inl NoInverseError" by simp
  from mod_inv_correct [of 3 7] ok show ?thesis by simp
qed

subsection \<open>Odd primes: Euclid's lemma, Fermat's little theorem, Lagrange's bound\<close>

lemma odd_prime_gt: "odd_prime p \<Longrightarrow> 2 < p"
  by (simp add: odd_prime_def)

lemma odd_prime_divisor:
  assumes "odd_prime p" "d dvd p" "0 \<le> d"
  shows "d = 1 \<or> d = p"
proof -
  from assms(1) have p: "2 < p" by (rule odd_prime_gt)
  from assms(2) p have "d \<noteq> 0" by auto
  with assms(3) have d: "0 < d" by simp
  from assms(2) p have "d \<le> p" by (simp add: zdvd_imp_le)
  show ?thesis
  proof (rule ccontr)
    assume "\<not> (d = 1 \<or> d = p)"
    with d \<open>d \<le> p\<close> have "d \<in> {2..<p}" by auto
    with assms(1) have "\<not> d dvd p" by (simp add: odd_prime_def)
    with assms(2) show False by simp
  qed
qed

lemma odd_prime_coprime:
  assumes "odd_prime p" "\<not> p dvd a"
  shows "coprime p a"
proof -
  have "gcd p a dvd p" "0 \<le> gcd p a" by simp_all
  with assms(1) have "gcd p a = 1 \<or> gcd p a = p" by (rule odd_prime_divisor)
  moreover have "gcd p a \<noteq> p"
  proof
    assume "gcd p a = p"
    then have "p dvd a" by (metis gcd_dvd2)
    with assms(2) show False by simp
  qed
  ultimately show ?thesis by (simp add: coprime_iff_gcd_eq_1)
qed

lemma odd_prime_dvd_mult:
  assumes "odd_prime p" "p dvd a * b"
  shows "p dvd a \<or> p dvd b"
proof (cases "p dvd a")
  case True then show ?thesis by simp
next
  case False
  with assms(1) have "coprime p a" by (rule odd_prime_coprime)
  with assms(2) have "p dvd b" by (simp add: coprime_dvd_mult_right_iff)
  then show ?thesis by simp
qed

lemma odd_prime_odd: "odd_prime p \<Longrightarrow> odd p"
proof
  assume p: "odd_prime p" and "even p"
  then have "2 dvd p" by simp
  moreover from p have "(2::int) \<in> {2..<p}" by (simp add: odd_prime_def)
  ultimately show False using p by (auto simp add: odd_prime_def)
qed

lemma odd_prime_sqrt_one:
  assumes "odd_prime p" "(u * u) mod p = 1"
  shows "u mod p = 1 \<or> u mod p = p - 1"
proof -
  from assms(1) have p: "2 < p" by (rule odd_prime_gt)
  from assms(2) p have "(u * u) mod p = 1 mod p" by simp
  then have "p dvd (u * u - 1)" by (simp add: mod_eq_dvd_iff)
  moreover have "u * u - 1 = (u - 1) * (u + 1)" by (simp add: algebra_simps)
  ultimately have "p dvd (u - 1) * (u + 1)" by simp
  with assms(1) have "p dvd (u - 1) \<or> p dvd (u + 1)" by (rule odd_prime_dvd_mult)
  then show ?thesis
  proof
    assume "p dvd (u - 1)"
    then have "u mod p = 1 mod p" by (simp add: mod_eq_dvd_iff)
    with p show ?thesis by simp
  next
    assume "p dvd (u + 1)"
    then have "p dvd (u - (- 1))" by simp
    then have "u mod p = (- 1) mod p" by (simp only: mod_eq_dvd_iff)
    also have "(- 1) mod p = p - 1" using p by (simp add: zmod_minus1)
    finally show ?thesis by simp
  qed
qed


lemma odd_prime_dvd_binomial:
  assumes "odd_prime p" "0 < k" "k < nat p"
  shows "p dvd int (nat p choose k)"
proof -
  from assms(1) have p: "2 < p" by (rule odd_prime_gt)
  have "k * (nat p choose k) = nat p * ((nat p - 1) choose (k - 1))"
    using assms(2) by (rule times_binomial_minus1_eq)
  then have "int k * int (nat p choose k) = int (nat p) * int ((nat p - 1) choose (k - 1))"
    by (metis of_nat_mult)
  with p have "p dvd int k * int (nat p choose k)" by simp
  with assms(1) have "p dvd int k \<or> p dvd int (nat p choose k)" by (rule odd_prime_dvd_mult)
  moreover have "\<not> p dvd int k"
    using assms(2,3) by (simp add: zdvd_not_zless)
  ultimately show ?thesis by simp
qed

lemma fermat_step:
  assumes "odd_prime p"
  shows "p dvd ((a + 1) ^ nat p - a ^ nat p - 1)"
proof -
  from assms have p: "2 < p" by (rule odd_prime_gt)
  define P where "P = nat p"
  define f where "f k = int (P choose k) * a ^ k" for k
  have P: "0 < P" using p by (simp add: P_def)
  have "(a + 1) ^ P = (\<Sum>k\<le>P. of_nat (P choose k) * a ^ k * 1 ^ (P - k))"
    by (rule binomial_ring)
  also have "\<dots> = (\<Sum>k\<le>P. f k)" by (simp add: f_def)
  also have "{..P} = insert 0 (insert P {1..<P})" using P by auto
  also have "(\<Sum>k\<in>insert 0 (insert P {1..<P}). f k) = f 0 + (f P + (\<Sum>k\<in>{1..<P}. f k))"
    using P by simp
  finally have "(a + 1) ^ P - a ^ P - 1 = (\<Sum>k\<in>{1..<P}. f k)"
    by (simp add: f_def)
  moreover have "p dvd (\<Sum>k\<in>{1..<P}. f k)"
  proof (rule dvd_sum)
    fix k assume "k \<in> {1..<P}"
    then have "0 < k" "k < nat p" by (simp_all add: P_def)
    with assms have "p dvd int (nat p choose k)" by (rule odd_prime_dvd_binomial)
    then show "p dvd f k" by (simp add: f_def P_def)
  qed
  ultimately show ?thesis by (simp add: P_def)
qed

lemma fermat_nat:
  assumes "odd_prime p"
  shows "p dvd (int a ^ nat p - int a)"
proof (induction a)
  case 0
  from assms have "2 < p" by (rule odd_prime_gt)
  then have "nat p \<noteq> 0" by simp
  then show ?case by (simp add: zero_power)
next
  case (Suc a)
  have eq: "int (Suc a) ^ nat p - int (Suc a)
        = ((int a + 1) ^ nat p - int a ^ nat p - 1) + (int a ^ nat p - int a)"
    by (simp add: algebra_simps)
  have "p dvd ((int a + 1) ^ nat p - int a ^ nat p - 1) + (int a ^ nat p - int a)"
    using fermat_step [OF assms, of "int a"] Suc by (rule dvd_add)
  then show ?case by (simp only: eq)
qed

lemma fermat_little:
  assumes "odd_prime p" "\<not> p dvd a"
  shows "a ^ nat (p - 1) mod p = 1"
proof -
  from assms(1) have p: "2 < p" by (rule odd_prime_gt)
  define r where "r = a mod p"
  have r: "0 \<le> r" "r < p" using p by (simp_all add: r_def)
  have nd: "\<not> p dvd r" using assms(2) by (simp add: r_def dvd_eq_mod_eq_0)
  have "p dvd (int (nat r) ^ nat p - int (nat r))" using assms(1) by (rule fermat_nat)
  with r have "p dvd (r ^ nat p - r)" by simp
  moreover have "nat p = Suc (nat (p - 1))" using p by simp
  ultimately have "p dvd r * (r ^ nat (p - 1) - 1)" by (simp add: algebra_simps)
  with assms(1) have "p dvd r \<or> p dvd (r ^ nat (p - 1) - 1)" by (rule odd_prime_dvd_mult)
  with nd have "p dvd (r ^ nat (p - 1) - 1)" by simp
  then have "r ^ nat (p - 1) mod p = 1 mod p" by (simp add: mod_eq_dvd_iff)
  then have "a ^ nat (p - 1) mod p = 1 mod p" by (simp add: r_def power_mod)
  with p show ?thesis by simp
qed


lemma length_quot: "length (quot cs r) = length cs - 1"
  by (induction cs r rule: quot.induct) simp_all

lemma last_quot: "2 \<le> length cs \<Longrightarrow> last (quot cs r) = last cs"
proof (induction cs r rule: quot.induct)
  case (3 c c' cs r)
  show ?case
  proof (cases cs)
    case Nil
    then show ?thesis by simp
  next
    case (Cons d ds)
    with 3 show ?thesis by simp
  qed
qed simp_all

lemma horner_quot: "horner cs x - horner cs r = (x - r) * horner (quot cs r) x"
proof (induction cs r rule: quot.induct)
  case (3 c c' cs r)
  have "horner (c # c' # cs) x - horner (c # c' # cs) r
        = (x - r) * horner (c' # cs) r + x * (horner (c' # cs) x - horner (c' # cs) r)"
    by (simp add: algebra_simps)
  also have "\<dots> = (x - r) * horner (c' # cs) r + x * ((x - r) * horner (quot (c' # cs) r) x)"
    by (simp only: 3)
  also have "\<dots> = (x - r) * horner (quot (c # c' # cs) r) x"
    by (simp add: algebra_simps)
  finally show ?case .
qed simp_all

lemma finite_roots: "finite (mod_roots p cs)"
proof -
  have "mod_roots p cs \<subseteq> {0..<p}" by (auto simp add: mod_roots_def)
  then show ?thesis by (rule finite_subset) simp
qed

lemma roots_quot:
  assumes "odd_prime p" "r \<in> mod_roots p cs"
  shows "mod_roots p cs \<subseteq> insert r (mod_roots p (quot cs r))"
proof
  fix x assume x: "x \<in> mod_roots p cs"
  show "x \<in> insert r (mod_roots p (quot cs r))"
  proof (cases "x = r")
    case True then show ?thesis by simp
  next
    case False
    from x assms(2) have "p dvd horner cs x - horner cs r" by (simp add: mod_roots_def)
    then have "p dvd (x - r) * horner (quot cs r) x" by (simp only: horner_quot)
    with assms(1) have "p dvd (x - r) \<or> p dvd horner (quot cs r) x" by (rule odd_prime_dvd_mult)
    moreover have "\<not> p dvd (x - r)"
    proof
      assume "p dvd (x - r)"
      then have "x mod p = r mod p" by (simp add: mod_eq_dvd_iff)
      with x assms(2) have "x = r" by (simp add: mod_roots_def)
      with False show False by simp
    qed
    ultimately have "p dvd horner (quot cs r) x" by simp
    with x show ?thesis by (simp add: mod_roots_def)
  qed
qed

lemma lagrange_roots:
  assumes "odd_prime p"
  shows "cs \<noteq> [] \<Longrightarrow> \<not> p dvd last cs \<Longrightarrow> card (mod_roots p cs) \<le> length cs - 1"
proof (induction "length cs" arbitrary: cs)
  case 0
  then show ?case by simp
next
  case (Suc n)
  show ?case
  proof (cases "mod_roots p cs = {}")
    case True
    then show ?thesis by simp
  next
    case False
    then obtain r where r: "r \<in> mod_roots p cs" by blast
    have two: "2 \<le> length cs"
    proof (rule ccontr)
      assume "\<not> 2 \<le> length cs"
      with Suc.prems(1) obtain c where c: "cs = [c]"
        by (cases cs) (auto simp add: not_less_eq_eq)
      with r have "p dvd c" by (simp add: mod_roots_def)
      with c Suc.prems(2) show False by simp
    qed
    have len: "n = length (quot cs r)" using Suc.hyps(2) by (simp add: length_quot)
    have ne: "quot cs r \<noteq> []" using two len Suc.hyps(2) by auto
    have lst: "\<not> p dvd last (quot cs r)" using Suc.prems(2) two by (simp add: last_quot)
    have "card (mod_roots p (quot cs r)) \<le> length (quot cs r) - 1"
      using len ne lst by (rule Suc.hyps(1))
    moreover have "card (mod_roots p cs) \<le> card (insert r (mod_roots p (quot cs r)))"
      using roots_quot [OF assms r] by (simp add: card_mono finite_roots)
    moreover have "card (insert r (mod_roots p (quot cs r))) \<le> Suc (card (mod_roots p (quot cs r)))"
      by (simp add: card_insert_le_m1 finite_roots card_insert_if)
    ultimately show ?thesis using two by (simp add: length_quot)
  qed
qed

lemma horner_monomial: "horner (replicate m 0 @ [1]) x = x ^ m"
  by (induction m) simp_all

lemma horner_power_minus_one: "horner ((- 1) # replicate m 0 @ [1]) x = x ^ Suc m - 1"
  by (simp add: horner_monomial)

lemma power_roots_bound:
  assumes "odd_prime p" "0 < k"
  shows "card {x \<in> {0..<p}. x ^ k mod p = 1} \<le> k"
proof -
  from assms(1) have p: "2 < p" by (rule odd_prime_gt)
  obtain m where k: "k = Suc m" using assms(2) by (cases k) auto
  let ?cs = "(- 1) # replicate m 0 @ [1::int]"
  have nd: "\<not> p dvd last ?cs" using p by (simp add: zdvd_not_zless)
  have ne: "?cs \<noteq> []" by simp
  have "card (mod_roots p ?cs) \<le> length ?cs - 1"
    using assms(1) ne nd by (rule lagrange_roots)
  moreover have "mod_roots p ?cs = {x \<in> {0..<p}. x ^ k mod p = 1}"
  proof -
    have "p dvd (x ^ k - 1) \<longleftrightarrow> x ^ k mod p = 1" for x
    proof -
      have "p dvd (x ^ k - 1) \<longleftrightarrow> x ^ k mod p = 1 mod p" by (simp add: mod_eq_dvd_iff)
      with p show ?thesis by simp
    qed
    then show ?thesis unfolding mod_roots_def horner_power_minus_one k by simp
  qed
  ultimately show ?thesis by (simp add: k)
qed


lemma euler_pm_one:
  assumes "odd_prime p" "\<not> p dvd z"
  shows "z ^ nat ((p - 1) div 2) mod p = 1 \<or> z ^ nat ((p - 1) div 2) mod p = p - 1"
proof -
  from assms(1) have p: "2 < p" by (rule odd_prime_gt)
  from assms(1) have "odd p" by (rule odd_prime_odd)
  then have "p - 1 = 2 * ((p - 1) div 2)" by simp
  then have "nat (p - 1) = nat ((p - 1) div 2) + nat ((p - 1) div 2)"
    using p by (metis mult_2 nat_add_distrib pos_imp_zdiv_nonneg_iff zero_less_numeral
        diff_ge_0_iff_ge less_imp_le order_trans one_le_numeral)
  then have "z ^ nat (p - 1) = z ^ nat ((p - 1) div 2) * z ^ nat ((p - 1) div 2)"
    by (simp add: power_add)
  with fermat_little [OF assms] have
    "(z ^ nat ((p - 1) div 2) * z ^ nat ((p - 1) div 2)) mod p = 1" by simp
  with assms(1) have "z ^ nat ((p - 1) div 2) mod p = 1 \<or> z ^ nat ((p - 1) div 2) mod p = p - 1"
    by (rule odd_prime_sqrt_one)
  then show ?thesis .
qed

lemma nonresidue_exists:
  assumes "odd_prime p"
  shows "\<exists>z. 2 \<le> z \<and> z < p \<and> z ^ nat ((p - 1) div 2) mod p = p - 1"
proof (rule ccontr)
  assume none: "\<not> (\<exists>z. 2 \<le> z \<and> z < p \<and> z ^ nat ((p - 1) div 2) mod p = p - 1)"
  from assms have p: "2 < p" by (rule odd_prime_gt)
  define k where "k = nat ((p - 1) div 2)"
  have k: "0 < k" using p by (simp add: k_def)
  have sub: "{1..<p} \<subseteq> {x \<in> {0..<p}. x ^ k mod p = 1}"
  proof
    fix z assume z: "z \<in> {1..<p}"
    then have "\<not> p dvd z" by (simp add: zdvd_not_zless)
    with assms have pm: "z ^ k mod p = 1 \<or> z ^ k mod p = p - 1"
      unfolding k_def by (rule euler_pm_one)
    have "z ^ k mod p \<noteq> p - 1"
    proof (cases "z = 1")
      case True
      with p show ?thesis by simp
    next
      case False
      with z have "2 \<le> z \<and> z < p" by simp
      with none show ?thesis by (auto simp add: k_def)
    qed
    with pm z show "z \<in> {x \<in> {0..<p}. x ^ k mod p = 1}" by simp
  qed
  have "finite {x \<in> {0..<p}. x ^ k mod p = 1}"
    by (rule finite_subset [of _ "{0..<p}"]) auto
  with sub have "card {1..<p} \<le> card {x \<in> {0..<p}. x ^ k mod p = 1}" by (rule card_mono [rotated])
  also have "\<dots> \<le> k" using assms k by (rule power_roots_bound)
  finally have "nat (p - 1) \<le> k" by simp
  then show False using p by (simp add: k_def)
qed

subsection \<open>Tonelli-Shanks\<close>

lemma split_twos_terminates:
  "0 < Q \<Longrightarrow> \<exists>Q' S'. split_twos Q S = Some (Q', S') \<and> odd Q' \<and> 0 < Q' \<and> S \<le> S'
      \<and> Q = Q' * 2 ^ nat (S' - S)"
proof (induction "nat Q" arbitrary: Q S rule: less_induct)
  case less
  show ?case
  proof (cases "Q mod 2 = 0")
    case False
    then have "split_twos Q S = Some (Q, S)" by (simp add: split_twos.simps [of Q S])
    moreover from False have "odd Q" by (simp add: even_iff_mod_2_eq_zero)
    ultimately show ?thesis using less.prems by simp
  next
    case True
    then have ev: "even Q" by (simp add: even_iff_mod_2_eq_zero)
    with less.prems have h: "0 < Q div 2" "nat (Q div 2) < nat Q" by auto
    from less.hyps [OF h(2) h(1), of "S + 1"]
    obtain Q' S' where r: "split_twos (Q div 2) (S + 1) = Some (Q', S')" "odd Q'" "0 < Q'"
      "S + 1 \<le> S'" "Q div 2 = Q' * 2 ^ nat (S' - (S + 1))" by blast
    from True r(1) have "split_twos Q S = Some (Q', S')" by (simp add: split_twos.simps [of Q S])
    moreover have "nat (S' - S) = Suc (nat (S' - (S + 1)))" using r(4) by simp
    then have "Q' * 2 ^ nat (S' - S) = 2 * (Q div 2)" using r(5) by simp
    with ev have "Q = Q' * 2 ^ nat (S' - S)" by simp
    ultimately show ?thesis using r(2,3,4) by simp
  qed
qed

lemma legendre_symbol_value:
  assumes "2 < p"
  shows "legendre_symbol a p =
     Inr (if a ^ nat ((p - 1) div 2) mod p \<noteq> p - 1 then a ^ nat ((p - 1) div 2) mod p else - 1)"
  using assms by (simp add: legendre_symbol_def pow_mod_def Let_def power_mod)

lemma legendre_symbol_one:
  assumes "2 < p"
  shows "legendre_symbol a p = Inr 1 \<longleftrightarrow> a ^ nat ((p - 1) div 2) mod p = 1"
  using assms by (auto simp add: legendre_symbol_value)

lemma legendre_symbol_minus_one:
  assumes "2 < p"
  shows "legendre_symbol a p = Inr (- 1) \<longleftrightarrow> a ^ nat ((p - 1) div 2) mod p = p - 1"
proof -
  have "0 \<le> a ^ nat ((p - 1) div 2) mod p" using assms by simp
  then have "a ^ nat ((p - 1) div 2) mod p \<noteq> - 1" by linarith
  with assms show ?thesis by (auto simp add: legendre_symbol_value)
qed

lemma find_z_finds:
  "2 < p \<Longrightarrow> z \<le> w \<Longrightarrow> w < p \<Longrightarrow> legendre_symbol w p = Inr (- 1) \<Longrightarrow>
         \<exists>z'. find_z z p = Inr z' \<and> z \<le> z' \<and> z' < p \<and> legendre_symbol z' p = Inr (- 1)"
proof (induction z p rule: find_z.induct)
  case (1 z p)
  show ?case
  proof (cases "legendre_symbol z p")
    case (Inl e)
    with "1.prems"(1) show ?thesis
      by (simp add: legendre_symbol_value)
  next
    case (Inr ls)
    show ?thesis
    proof (cases "ls = - 1")
      case True
      with Inr "1.prems" show ?thesis by (auto simp add: find_z.simps [of z p])
    next
      case False
      with Inr "1.prems" have "z \<noteq> w" by auto
      with "1.prems" have zw: "z + 1 \<le> w" by simp
      note p2 = "1.prems"(1)
      from zw "1.prems"(3) have np: "\<not> p \<le> z + 1" by simp
      from "1.IH" [OF Inr False np p2 zw "1.prems"(3,4)]
      obtain z' where "find_z (z + 1) p = Inr z'" "z + 1 \<le> z'" "z' < p"
        "legendre_symbol z' p = Inr (- 1)" by blast
      with Inr False np show ?thesis by (auto simp add: find_z.simps [of z p])
    qed
  qed
qed

lemma find_i_least:
  assumes "1 < p"
  shows "temp mod p \<noteq> 1 \<Longrightarrow> 0 < d \<Longrightarrow> temp ^ (2 ^ d) mod p = 1 \<Longrightarrow> i_pow + int d \<le> M \<Longrightarrow>
         \<exists>e. 1 \<le> e \<and> e \<le> d \<and> find_i p temp i_pow M = i_pow + int e - 1 \<and>
             temp ^ (2 ^ e) mod p = 1 \<and> temp ^ (2 ^ (e - 1)) mod p \<noteq> 1"
proof (induction d arbitrary: temp i_pow)
  case 0
  then show ?case by simp
next
  case (Suc d)
  from Suc.prems(4) have lt: "i_pow < M" by simp
  define temp' where "temp' = pow_mod temp 2 p"
  have t': "temp' = (temp * temp) mod p" by (simp add: temp'_def pow_mod_def power2_eq_square)
  have sq: "temp' ^ n mod p = temp ^ (2 * n) mod p" for n
    by (simp add: t' power_mod power_mult power2_eq_square)
  show ?case
  proof (cases "temp' = 1")
    case True
    with lt have "find_i p temp i_pow M = i_pow"
      by (simp add: find_i.simps [of p temp i_pow M] temp'_def)
    moreover from True have "temp ^ (2 ^ 1) mod p = 1" by (simp add: t' power2_eq_square)
    moreover have "temp ^ (2 ^ (1 - 1)) mod p \<noteq> 1" using Suc.prems(1) by simp
    ultimately show ?thesis by (intro exI [of _ 1]) simp
  next
    case False
    with lt have rec: "find_i p temp i_pow M = find_i p temp' (i_pow + 1) M"
      by (simp add: find_i.simps [of p temp i_pow M] temp'_def Let_def)
    have d: "0 < d"
    proof (rule ccontr)
      assume "\<not> 0 < d"
      then have "d = 0" by simp
      with Suc.prems(3) have "temp' = 1" by (simp add: t' power2_eq_square)
      with False show False by simp
    qed
    have m1: "temp' mod p \<noteq> 1" using False by (simp add: t')
    have p1: "temp' ^ (2 ^ d) mod p = 1" using Suc.prems(3) by (simp add: sq)
    have le: "(i_pow + 1) + int d \<le> M" using Suc.prems(4) by simp
    from Suc.IH [OF m1 d p1 le]
    obtain e where e: "1 \<le> e" "e \<le> d" "find_i p temp' (i_pow + 1) M = i_pow + 1 + int e - 1"
      "temp' ^ (2 ^ e) mod p = 1" "temp' ^ (2 ^ (e - 1)) mod p \<noteq> 1" by blast
    have "2 * 2 ^ (e - 1) = (2::nat) ^ e" using e(1) by (cases e) simp_all
    with e(5) have "temp ^ (2 ^ e) mod p \<noteq> 1" by (simp add: sq)
    with e rec show ?thesis by (intro exI [of _ "Suc e"]) (simp add: sq)
  qed
qed


lemma minus_one_squared_mod:
  assumes "1 < p" "u mod p = p - 1" "v mod p = p - 1"
  shows "(u * v) mod p = (1::int)"
proof -
  have "(u * v) mod p = ((p - 1) * (p - 1)) mod p"
    using assms(2,3) by (metis mod_mult_eq)
  also have "(p - 1) * (p - 1) = 1 + p * (p - 2)" by (simp add: algebra_simps)
  also have "(1 + p * (p - 2)) mod p = 1 mod p" by simp
  finally show ?thesis using assms(1) by simp
qed

lemma ts_loop_correct:
  "odd_prime p \<Longrightarrow> 1 \<le> M \<Longrightarrow> c ^ (2 ^ nat (M - 1)) mod p = p - 1 \<Longrightarrow>
   t ^ (2 ^ nat (M - 1)) mod p = 1 \<Longrightarrow> 0 \<le> t \<Longrightarrow> t < p \<Longrightarrow>
   (R * R) mod p = (t * n) mod p \<Longrightarrow> 0 \<le> R \<Longrightarrow> R < p \<Longrightarrow>
   (ts_loop p M c t R * ts_loop p M c t R) mod p = n mod p
     \<and> 0 \<le> ts_loop p M c t R \<and> ts_loop p M c t R < p"
proof (induction p M c t R rule: ts_loop.induct)
  case (1 p M c t R)
  note prime = "1.prems"(1)
  from prime have p: "2 < p" by (rule odd_prime_gt)
  show ?case
  proof (cases "t = 1")
    case True
    have "ts_loop p M c 1 R = R" by (simp add: ts_loop.simps [of p M c 1 R])
    with True "1.prems" show ?thesis by simp
  next
    case False
    define d where "d = nat (M - 1)"
    have tm: "t mod p \<noteq> 1" using False "1.prems"(5,6) by simp
    have d: "0 < d"
    proof (rule ccontr)
      assume "\<not> 0 < d"
      then have "d = 0" by simp
      with "1.prems"(4) tm show False by (simp add: d_def)
    qed
    have M: "M = 1 + int d" using d by (simp add: d_def)
    have td: "t ^ (2 ^ d) mod p = 1" using "1.prems"(4) by (simp add: d_def)
    have cd: "c ^ (2 ^ d) mod p = p - 1" using "1.prems"(3) by (simp add: d_def)
    have "1 < p" using p by simp
    from find_i_least [OF this tm d td, of 1 M] M
    obtain e where e: "1 \<le> e" "e \<le> d" "find_i p t 1 M = int e"
      "t ^ (2 ^ e) mod p = 1" "t ^ (2 ^ (e - 1)) mod p \<noteq> 1" by auto
    define b where "b = pow_mod c (2 ^ nat (M - int e - 1)) p"
    define c' where "c' = pow_mod b 2 p"
    have i0: "find_i p t 1 M \<noteq> 0" using e(1,3) by simp
    have unfold: "ts_loop p M c t R = ts_loop p (int e) c' ((t * c') mod p) ((R * b) mod p)"
      using False i0 e(3) by (simp add: ts_loop.simps [of p M c t R] Let_def b_def c'_def)
    have ex: "nat (M - int e - 1) = d - e" using M e(2) by simp
    have b: "b = c ^ (2 ^ (d - e)) mod p"
      by (simp add: b_def pow_mod_def ex nat_power_eq)
    have c': "c' = (b * b) mod p" by (simp add: c'_def pow_mod_def power2_eq_square)
    have c'pow: "c' mod p = c ^ (2 ^ Suc (d - e)) mod p"
    proof -
      have "c' mod p = (c ^ (2 ^ (d - e)) * c ^ (2 ^ (d - e))) mod p"
        by (simp add: c' b mod_mult_eq)
      also have "c ^ (2 ^ (d - e)) * c ^ (2 ^ (d - e)) = c ^ (2 ^ Suc (d - e))"
        by (simp add: power_add [symmetric] mult_2)
      finally show ?thesis .
    qed
    have tw: "2 ^ Suc (d - e) * 2 ^ (e - 1) = (2::nat) ^ d"
    proof -
      have "Suc (d - e) + (e - 1) = d" using e(1,2) by simp
      then show ?thesis by (metis power_add)
    qed
    have c'e: "c' ^ (2 ^ (e - 1)) mod p = p - 1"
    proof -
      have "c' ^ (2 ^ (e - 1)) mod p = (c ^ (2 ^ Suc (d - e))) ^ (2 ^ (e - 1)) mod p"
        using c'pow by (metis power_mod)
      also have "\<dots> = c ^ (2 ^ d) mod p" by (simp only: power_mult [symmetric] tw)
      finally show ?thesis using cd by simp
    qed
    have te: "t ^ (2 ^ (e - 1)) mod p = p - 1"
    proof -
      have "2 * 2 ^ (e - 1) = (2::nat) ^ e" using e(1) by (cases e) simp_all
      then have "t ^ (2 ^ (e - 1)) * t ^ (2 ^ (e - 1)) = t ^ (2 ^ e)"
        by (simp add: power_add [symmetric] mult_2)
      with e(4) have "(t ^ (2 ^ (e - 1)) * t ^ (2 ^ (e - 1))) mod p = 1" by simp
      with prime have "t ^ (2 ^ (e - 1)) mod p = 1 \<or> t ^ (2 ^ (e - 1)) mod p = p - 1"
        by (rule odd_prime_sqrt_one)
      with e(5) show ?thesis by simp
    qed
    have inv_t: "((t * c') mod p) ^ (2 ^ nat (int e - 1)) mod p = 1"
    proof -
      have "((t * c') mod p) ^ (2 ^ (e - 1)) mod p = (t * c') ^ (2 ^ (e - 1)) mod p"
        by (simp add: power_mod)
      also have "\<dots> = (t ^ (2 ^ (e - 1)) * c' ^ (2 ^ (e - 1))) mod p"
        by (simp add: power_mult_distrib)
      also have "\<dots> = 1" using \<open>1 < p\<close> te c'e by (rule minus_one_squared_mod)
      finally show ?thesis using e(1) by (simp add: nat_diff_distrib)
    qed
    have inv_c: "c' ^ (2 ^ nat (int e - 1)) mod p = p - 1"
      using c'e e(1) by (simp add: nat_diff_distrib)
    have inv_R: "(((R * b) mod p) * ((R * b) mod p)) mod p = (((t * c') mod p) * n) mod p"
    proof -
      have "(((R * b) mod p) * ((R * b) mod p)) mod p = ((R * R) * (b * b)) mod p"
        by (simp add: mod_mult_eq algebra_simps)
      also have "\<dots> = ((t * n) * c') mod p"
        using "1.prems"(7) c' by (metis mod_mult_eq mod_mod_trivial)
      also have "\<dots> = (((t * c') mod p) * n) mod p"
      proof -
        have "(((t * c') mod p) * n) mod p = ((t * c') * n) mod p"
          by (rule mod_mult_left_eq)
        then show ?thesis by (simp add: algebra_simps)
      qed
      finally show ?thesis .
    qed
    have rng: "0 \<le> (t * c') mod p" "(t * c') mod p < p" "0 \<le> (R * b) mod p" "(R * b) mod p < p"
      using p by simp_all
    have e1: "1 \<le> int e" using e(1) by simp
    note IH = "1.IH" [OF False refl i0 refl refl refl, unfolded e(3), folded b_def,
        folded c'_def]
    from IH [OF prime e1 inv_c inv_t rng(1,2) inv_R rng(3,4)]
    show ?thesis by (simp only: unfold)
  qed
qed


lemma sorted_set2_roots:
  assumes "odd_prime p" "0 \<le> R" "R < p" "(R * R) mod p = m mod p" "m mod p \<noteq> 0"
  shows "distinct (sorted_set2 R (p - R)) \<and> sorted (sorted_set2 R (p - R)) \<and>
         length (sorted_set2 R (p - R)) = 2 \<and>
         (\<forall>r\<in>set (sorted_set2 R (p - R)). r ^ 2 mod p = m mod p) \<and>
         (\<forall>r1 r2. sorted_set2 R (p - R) = [r1, r2] \<longrightarrow> r1 + r2 = p)"
proof -
  from assms(1) have "odd p" by (rule odd_prime_odd)
  have ne: "R \<noteq> p - R"
  proof
    assume "R = p - R"
    then have "p = 2 * R" by simp
    with \<open>odd p\<close> show False by simp
  qed
  have "((p - R) * (p - R)) mod p = (R * R + p * (p - 2 * R)) mod p"
    by (simp add: algebra_simps)
  also have "\<dots> = (R * R) mod p" by simp
  finally have "((p - R) * (p - R)) mod p = m mod p" using assms(4) by simp
  with assms(4) ne show ?thesis
    by (auto simp add: sorted_set2_def power2_eq_square)
qed

lemma tonelli_shanks_total:
  assumes "odd_prime p"
  shows "\<exists>rs. tonelli_shanks n p = Inr rs \<and> distinct rs \<and> sorted rs \<and> length rs \<le> 2 \<and>
           (\<forall>r\<in>set rs. r ^ 2 mod p = n mod p) \<and>
           (\<forall>r1 r2. rs = [r1, r2] \<longrightarrow> r1 + r2 = p) \<and>
           (n mod p = 0 \<longrightarrow> rs = [0])"
proof -
  from assms have p: "2 < p" by (rule odd_prime_gt)
  from assms have oddp: "odd p" by (rule odd_prime_odd)
  define n' where "n' = n mod p"
  define k where "k = nat ((p - 1) div 2)"
  have n'm: "n' mod p = n mod p" by (simp add: n'_def)
  have half: "p - 1 = 2 * ((p - 1) div 2)" using oddp by simp
  show ?thesis
  proof (cases "n' = 0")
    case True
    with p have "tonelli_shanks n p = Inr [0]" by (simp add: tonelli_shanks_def n'_def)
    moreover from True have "n mod p = 0" by (simp add: n'_def)
    ultimately show ?thesis using p by simp
  next
    case nz: False
    then have nz': "n mod p \<noteq> 0" by (simp add: n'_def)
    show ?thesis
    proof (cases "legendre_symbol n' p = Inr 1")
      case False
      from p obtain ls where ls: "legendre_symbol n' p = Inr ls"
        by (simp add: legendre_symbol_value)
      with False have "ls \<noteq> 1" by simp
      with p nz ls have "tonelli_shanks n p = Inr []"
        by (simp add: tonelli_shanks_def n'_def Let_def)
      with nz' show ?thesis by simp
    next
      case True
      with p have euler: "n' ^ k mod p = 1" by (simp add: legendre_symbol_one k_def)
      show ?thesis
      proof (cases "p mod 4 = 3")
        case p3: True
        define x where "x = pow_mod n' ((p + 1) div 4) p"
        from p nz True p3 have res: "tonelli_shanks n p = Inr (sorted_set2 x (p - x))"
          by (simp add: tonelli_shanks_def n'_def Let_def x_def)
        have "(p + 1) div 4 + (p + 1) div 4 = (p - 1) div 2 + 1" using p3 by presburger
        then have "nat ((p + 1) div 4) + nat ((p + 1) div 4) = Suc k"
          using p by (simp add: k_def nat_add_distrib [symmetric] Suc_nat_eq_nat_zadd1)
        then have "n' ^ nat ((p + 1) div 4) * n' ^ nat ((p + 1) div 4) = n' * n' ^ k"
          by (simp add: power_add [symmetric])
        then have "(x * x) mod p = (n' * n' ^ k) mod p"
          by (simp add: x_def pow_mod_def mod_mult_eq)
        also have "\<dots> = (n' * 1) mod p" using euler by (metis mod_mult_right_eq)
        finally have xx: "(x * x) mod p = n mod p" using n'm by simp
        have "0 \<le> x" "x < p" using p by (simp_all add: x_def pow_mod_def)
        with assms have "distinct (sorted_set2 x (p - x)) \<and> sorted (sorted_set2 x (p - x)) \<and>
           length (sorted_set2 x (p - x)) = 2 \<and>
           (\<forall>r\<in>set (sorted_set2 x (p - x)). r ^ 2 mod p = n mod p) \<and>
           (\<forall>r1 r2. sorted_set2 x (p - x) = [r1, r2] \<longrightarrow> r1 + r2 = p)"
          using xx nz' by (intro sorted_set2_roots)
        with res nz' show ?thesis by simp
      next
        case p1: False
        have "0 < p - 1" using p by simp
        from split_twos_terminates [OF this, of 0]
        obtain Q S where QS: "split_twos (p - 1) 0 = Some (Q, S)" "odd Q" "0 < Q" "0 \<le> S"
          "p - 1 = Q * 2 ^ nat S" by auto
        have S1: "1 \<le> S"
        proof (rule ccontr)
          assume "\<not> 1 \<le> S"
          with QS(4) have "S = 0" by simp
          with QS(5) QS(2) have "odd (p - 1)" by simp
          with oddp show False by simp
        qed
        then have "nat S = Suc (nat (S - 1))" by simp
        with QS(5) have "p - 1 = 2 * (Q * 2 ^ nat (S - 1))" by simp
        then have "(p - 1) div 2 = Q * 2 ^ nat (S - 1)" by simp
        then have kQ: "k = nat Q * 2 ^ nat (S - 1)"
          using QS(3) by (simp add: k_def nat_mult_distrib nat_power_eq)
        from nonresidue_exists [OF assms]
        obtain w where w: "2 \<le> w" "w < p" "w ^ nat ((p - 1) div 2) mod p = p - 1" by blast
        from p w(3) have "legendre_symbol w p = Inr (- 1)"
          by (simp add: legendre_symbol_minus_one)
        from find_z_finds [OF p w(1,2) this]
        obtain z where z: "find_z 2 p = Inr z" "legendre_symbol z p = Inr (- 1)" by blast
        from p z(2) have zk: "z ^ k mod p = p - 1"
          by (simp add: legendre_symbol_minus_one k_def)
        define c where "c = pow_mod z Q p"
        define t where "t = pow_mod n' Q p"
        define R where "R = pow_mod n' ((Q + 1) div 2) p"
        from p nz True p1 QS(1) z(1)
        have res: "tonelli_shanks n p = Inr (sorted_set2 (ts_loop p S c t R) (p - ts_loop p S c t R))"
          by (simp add: tonelli_shanks_def n'_def Let_def c_def t_def R_def)
        have inv_c: "c ^ (2 ^ nat (S - 1)) mod p = p - 1"
          using zk by (simp add: c_def pow_mod_def power_mod power_mult [symmetric] kQ)
        have inv_t: "t ^ (2 ^ nat (S - 1)) mod p = 1"
          using euler by (simp add: t_def pow_mod_def power_mod power_mult [symmetric] kQ)
        have rng: "0 \<le> t" "t < p" "0 \<le> R" "R < p"
          using p by (simp_all add: t_def R_def pow_mod_def)
        have "(Q + 1) div 2 + (Q + 1) div 2 = Q + 1" using QS(2) by presburger
        then have "nat ((Q + 1) div 2) + nat ((Q + 1) div 2) = Suc (nat Q)"
          using QS(3) by (simp add: nat_add_distrib [symmetric] Suc_nat_eq_nat_zadd1)
        then have "n' ^ nat ((Q + 1) div 2) * n' ^ nat ((Q + 1) div 2) = n' ^ nat Q * n'"
          by (simp add: power_add [symmetric])
        then have "(R * R) mod p = (n' ^ nat Q * n') mod p"
          by (simp add: R_def pow_mod_def mod_mult_eq)
        also have "\<dots> = (t * n') mod p"
          by (simp add: t_def pow_mod_def mod_mult_left_eq)
        finally have inv_R: "(R * R) mod p = (t * n') mod p" .
        from ts_loop_correct [OF assms S1 inv_c inv_t rng(1,2) inv_R rng(3,4)]
        have fin: "(ts_loop p S c t R * ts_loop p S c t R) mod p = n mod p"
          "0 \<le> ts_loop p S c t R" "ts_loop p S c t R < p"
          using n'm by simp_all
        from sorted_set2_roots [OF assms fin(2,3,1) nz'] res nz' show ?thesis by simp
      qed
    qed
  qed
qed

text \<open>
  Claim C1: for every odd prime \<open>p\<close> and every integer \<open>n\<close>, \<open>tonelli_shanks(n, p)\<close>
  returns a list (it raises nothing and its loops end), the list is ascending without
  duplicates and has at most two elements, every element \<open>r\<close> satisfies
  \<open>r\<^sup>2 mod p = n mod p\<close>, two elements add up to \<open>p\<close>, and for \<open>n \<equiv> 0 (mod p)\<close> the list is
  \<open>[0]\<close>.
\<close>

theorem tonelli_shanks_correct:
  assumes "odd_prime p"
  shows "\<exists>rs. tonelli_shanks n p = Inr rs \<and> distinct rs \<and> sorted rs \<and> length rs \<le> 2 \<and>
           (\<forall>r\<in>set rs. r ^ 2 mod p = n mod p) \<and>
           (\<forall>r1 r2. rs = [r1, r2] \<longrightarrow> r1 + r2 = p) \<and>
           (n mod p = 0 \<longrightarrow> rs = [0])"
  using assms by (rule tonelli_shanks_total)

theorem tonelli_shanks_correct_witness:
  "odd_prime 17 \<and> tonelli_shanks 2 17 = Inr [6, 11] \<and>
   (\<exists>rs. tonelli_shanks 2 17 = Inr rs \<and> distinct rs \<and> sorted rs \<and> length rs \<le> 2 \<and>
           (\<forall>r\<in>set rs. r ^ 2 mod 17 = 2 mod 17) \<and>
           (\<forall>r1 r2. rs = [r1, r2] \<longrightarrow> r1 + r2 = 17) \<and>
           (2 mod 17 = (0::int) \<longrightarrow> rs = [0]))"
proof -
  have pr: "odd_prime 17" by code_simp
  have ev: "tonelli_shanks 2 17 = Inr [6, 11]" by code_simp
  from tonelli_shanks_correct [OF pr, of 2] pr ev show ?thesis by blast
qed

subsection \<open>Equality of points\<close>

text \<open>
  Claim C4, as stated: two points are equal if and only if both are the identity or all
  five attributes match, so that two identity points are equal whatever curve they carry.
  It fails for the identity points of two different curves: both have no coordinates, and
  \<open>==\<close> is false.
\<close>

theorem Point_eq_counterexample:
  "Point_init None None 1 1 23 = Inr \<lparr>Px = None, Py = None, Pa = 1, Pb = 1, Pp = 23\<rparr> \<and>
   Point_init None None 2 2 17 = Inr \<lparr>Px = None, Py = None, Pa = 2, Pb = 2, Pp = 17\<rparr> \<and>
   \<not> Point_eq \<lparr>Px = None, Py = None, Pa = 1, Pb = 1, Pp = 23\<rparr>
         (PyPoint \<lparr>Px = None, Py = None, Pa = 2, Pb = 2, Pp = 17\<rparr>)"
  by (simp add: Point_eq_def Point_init_def)

text \<open>
  Claim C4, amended: two points are equal if and only if all five of \<open>x\<close>, \<open>y\<close>, \<open>a\<close>,
  \<open>b\<close>, \<open>p\<close> match exactly (an absent coordinate matching an absent one); two identity
  points are equal if and only if they carry the same curve parameters.
\<close>

theorem Point_eq_structural:
  "(Point_eq P (PyPoint Q) \<longleftrightarrow>
      Px P = Px Q \<and> Py P = Py Q \<and> Pa P = Pa Q \<and> Pb P = Pb Q \<and> Pp P = Pp Q) \<and>
   (Point_eq \<lparr>Px = None, Py = None, Pa = a1, Pb = b1, Pp = p1\<rparr>
       (PyPoint \<lparr>Px = None, Py = None, Pa = a2, Pb = b2, Pp = p2\<rparr>)
      \<longleftrightarrow> a1 = a2 \<and> b1 = b2 \<and> p1 = p2)"
  by (simp add: Point_eq_def)

text \<open>
  Claim C9: \<open>P == None\<close> is true if and only if both coordinates of \<open>P\<close> are absent. The
  comparison is a total function of the point, so it raises for no point.
\<close>

theorem Point_eq_None:
  "Point_eq P PyNone \<longleftrightarrow> Px P = None \<and> Py P = None"
  by (simp add: Point_eq_def)

subsection \<open>Enumerating the points of a curve\<close>

text \<open>
  Claim C10: for \<open>p \<le> 2\<close>, \<open>find_points_on_curve\<close> returns two empty lists, whatever
  \<open>a\<close>, \<open>b\<close>, \<open>x_limit\<close> and \<open>max_total_points\<close> are.
\<close>

theorem find_points_small_modulus:
  "p \<le> 2 \<Longrightarrow> find_points_on_curve a b p x_limit max_total_points = ([], [])"
  by (simp add: find_points_on_curve_def)

theorem find_points_small_modulus_witness:
  "(2::int) \<le> 2 \<and> find_points_on_curve 1 1 2 5 10 = ([], [])"
  using find_points_small_modulus [of 2 1 1 5 10] by simp

lemma emit_roots_inv:
  "points_inv a b p mx st \<Longrightarrow> list_all (\<lambda>y. on_curve_mod a b p (x, y)) roots \<Longrightarrow>
   (case emit_roots mx x roots st of
      Inl res \<Rightarrow> points_ok a b p mx res
    | Inr st' \<Rightarrow> points_inv a b p mx st')"
proof (induction mx x roots st rule: emit_roots.induct)
  case (1 mx x st)
  then show ?case by simp
next
  case (2 mx x y roots points_x points_y count)
  from "2.prems"(1) have len: "length points_x = length points_y"
    and cnt: "count = int (length points_x)" and lt: "count < mx"
    and all: "list_all (on_curve_mod a b p) (zip points_x points_y)"
    by (simp_all add: points_inv_def)
  from "2.prems"(2) have y: "on_curve_mod a b p (x, y)"
    and rest: "list_all (\<lambda>y. on_curve_mod a b p (x, y)) roots" by simp_all
  have all': "list_all (on_curve_mod a b p) (zip (points_x @ [x]) (points_y @ [y]))"
    using len all y by simp
  show ?case
  proof (cases "count + 1 \<ge> mx")
    case True
    with len cnt lt all' show ?thesis by (simp add: points_ok_def Let_def)
  next
    case False
    with len cnt all' have "points_inv a b p mx (points_x @ [x], points_y @ [y], count + 1)"
      by (simp add: points_inv_def)
    from "2.IH" [OF refl refl refl False this rest] False show ?thesis by (simp add: Let_def)
  qed
qed

lemma points_loop_ok:
  "odd_prime p \<Longrightarrow> points_inv a b p mx st \<Longrightarrow>
   points_ok a b p mx (points_loop a b p x_limit mx x st)"
proof (induction a b p x_limit mx x st rule: points_loop.induct)
  case (1 a b p x_limit mx x st)
  note prime = "1.prems"(1)
  show ?case
  proof (cases "x < x_limit")
    case False
    then have "points_loop a b p x_limit mx x st = (fst st, fst (snd st))"
      by (simp add: points_loop.simps [of a b p x_limit mx x st])
    with "1.prems"(2) show ?thesis
      by (auto simp add: points_inv_def points_ok_def)
  next
    case True
    define rhs where "rhs = (pow_mod x 3 p + a * x + b) mod p"
    have "(x ^ 3 mod p + (a * x + b)) mod p = (x ^ 3 + (a * x + b)) mod p"
      by (rule mod_add_left_eq)
    then have rhs: "rhs mod p = (x ^ 3 + a * x + b) mod p"
      by (simp add: rhs_def pow_mod_def add.assoc)
    show ?thesis
    proof (cases "tonelli_shanks rhs p")
      case (Inl e)
      with True have "points_loop a b p x_limit mx x st = points_loop a b p x_limit mx (x + 1) st"
        by (simp add: points_loop.simps [of a b p x_limit mx x st] rhs_def)
      with "1.IH"(1) [OF True refl, folded rhs_def, OF Inl prime "1.prems"(2)] show ?thesis by simp
    next
      case (Inr roots)
      from tonelli_shanks_total [OF prime, of rhs] Inr
      have "\<forall>r\<in>set roots. r ^ 2 mod p = rhs mod p" by auto
      then have roots: "list_all (\<lambda>y. on_curve_mod a b p (x, y)) roots"
        by (simp add: list_all_iff on_curve_mod_def rhs)
      show ?thesis
      proof (cases "emit_roots mx x roots st")
        case res: (Inl res)
        with True Inr have "points_loop a b p x_limit mx x st = res"
          by (simp add: points_loop.simps [of a b p x_limit mx x st] rhs_def)
        with emit_roots_inv [OF "1.prems"(2) roots] res show ?thesis by simp
      next
        case st': (Inr st')
        with True Inr have "points_loop a b p x_limit mx x st
            = points_loop a b p x_limit mx (x + 1) st'"
          by (simp add: points_loop.simps [of a b p x_limit mx x st] rhs_def)
        moreover from emit_roots_inv [OF "1.prems"(2) roots] st'
        have "points_inv a b p mx st'" by simp
        ultimately show ?thesis
          using "1.IH"(2) [OF True refl, folded rhs_def, OF Inr st' prime] by simp
      qed
    qed
  qed
qed

text \<open>
  Claim C5, as stated: for every \<open>max_total_points\<close> the function returns at most
  \<open>max_total_points\<close> pairs. It fails at \<open>max_total_points = 0\<close>: the limit is tested after
  a point has been appended, so one point is returned.
\<close>

theorem find_points_on_curve_counterexample:
  "odd_prime 23 \<and>
   \<not> (case find_points_on_curve 1 1 23 5 0 of (xs, ys) \<Rightarrow> int (length xs) \<le> 0)"
  by code_simp

text \<open>
  Claim C5, amended: for every odd prime \<open>p\<close>, every \<open>a\<close>, \<open>b\<close>, \<open>x_limit\<close> and every
  \<open>max_total_points \<ge> 1\<close>, \<open>find_points_on_curve\<close> returns two lists of the same length,
  at most \<open>max_total_points\<close>, and every returned pair \<open>(x, y)\<close> satisfies
  \<open>y\<^sup>2 \<equiv> x\<^sup>3 + ax + b (mod p)\<close>.
\<close>

theorem find_points_on_curve_correct:
  assumes "odd_prime p" "1 \<le> max_total_points"
  shows "case find_points_on_curve a b p x_limit max_total_points of
           (xs, ys) \<Rightarrow> length xs = length ys \<and> int (length xs) \<le> max_total_points \<and>
             (\<forall>(x, y)\<in>set (zip xs ys). y ^ 2 mod p = (x ^ 3 + a * x + b) mod p)"
proof -
  from assms(1) have p: "2 < p" by (rule odd_prime_gt)
  have "points_inv a b p max_total_points ([], [], 0)"
    using assms(2) by (simp add: points_inv_def)
  with assms(1) have "points_ok a b p max_total_points
      (points_loop a b p x_limit max_total_points 0 ([], [], 0))"
    by (rule points_loop_ok)
  with p show ?thesis
    by (auto simp add: find_points_on_curve_def points_ok_def list_all_iff on_curve_mod_def)
qed

theorem find_points_on_curve_correct_witness:
  "odd_prime 23 \<and> (1::int) \<le> 3 \<and> find_points_on_curve 1 1 23 5 3 = ([0, 0, 1], [1, 22, 7]) \<and>
   (case find_points_on_curve 1 1 23 5 3 of
      (xs, ys) \<Rightarrow> length xs = length ys \<and> int (length xs) \<le> 3 \<and>
        (\<forall>(x, y)\<in>set (zip xs ys). y ^ 2 mod 23 = (x ^ 3 + 1 * x + 1) mod 23))"
proof -
  have pr: "odd_prime 23" by code_simp
  have ev: "find_points_on_curve 1 1 23 5 3 = ([0, 0, 1], [1, 22, 7])" by code_simp
  from find_points_on_curve_correct [OF pr, of 3 1 1 5] pr ev show ?thesis by simp
qed

subsection \<open>The brute-force order search\<close>

lemma no_identity_beforeD:
  "no_identity_before G Oid k \<Longrightarrow> 1 \<le> j \<Longrightarrow> j < k \<Longrightarrow>
   \<exists>R. accumulator G j = Inr R \<and> \<not> Point_eq R (PyPoint Oid)"
  by (cases "accumulator G j") (auto simp add: no_identity_before_def split: sum.splits)

text \<open>
  The loop, entered with \<open>current_point\<close> the result of \<open>j\<close> additions and \<open>order = j + 1\<close>:
  what it returns is fixed by the first addition after the \<open>j\<close>-th that raises or gives
  the identity, or by the cap when there is none among the additions the cap allows.
\<close>

lemma order_loop_cap:
  "accumulator G j = Inr cur \<Longrightarrow> order = int j + 1 \<Longrightarrow>
   (\<forall>k. j < k \<and> int k \<le> cap \<longrightarrow>
      (\<exists>R. accumulator G k = Inr R \<and> \<not> Point_eq R (PyPoint Oid))) \<Longrightarrow>
   \<exists>n. order_loop clk G Oid cap cur order ticks = Inr (None, clk n - clk 0)"
proof (induction "nat (cap + 1 - order)" arbitrary: j cur order ticks)
  case 0
  then have "\<not> order \<le> cap" by simp
  then show ?case by (auto simp add: order_loop.simps [of clk G Oid cap cur order ticks])
next
  case (Suc m)
  from Suc.hyps(2) have le: "order \<le> cap" by simp
  with Suc.prems(2) have "j < Suc j \<and> int (Suc j) \<le> cap" by simp
  with Suc.prems(3) obtain R where R: "accumulator G (Suc j) = Inr R"
    and nid: "\<not> Point_eq R (PyPoint Oid)" by blast
  from R Suc.prems(1) have add: "Point_add cur G = Inr R" by simp
  have m: "m = nat (cap + 1 - (order + 1))" using Suc.hyps(2) by simp
  have o: "order + 1 = int (Suc j) + 1" using Suc.prems(2) by simp
  have rest: "\<forall>k. Suc j < k \<and> int k \<le> cap \<longrightarrow>
      (\<exists>R. accumulator G k = Inr R \<and> \<not> Point_eq R (PyPoint Oid))"
    using Suc.prems(3) by auto
  from Suc.hyps(1) [OF m R o rest]
  obtain n where "order_loop clk G Oid cap R (order + 1)
      (if (order + 1) mod 100000 = 0 then ticks + 1 else ticks) = Inr (None, clk n - clk 0)"
    by blast
  with le add nid show ?case
    by (auto simp add: order_loop.simps [of clk G Oid cap cur order ticks])
qed

lemma order_loop_first:
  "accumulator G j = Inr cur \<Longrightarrow> order = int j + 1 \<Longrightarrow> j < k \<Longrightarrow> int k \<le> cap \<Longrightarrow>
   (\<forall>i. j < i \<and> i < k \<longrightarrow>
      (\<exists>R. accumulator G i = Inr R \<and> \<not> Point_eq R (PyPoint Oid))) \<Longrightarrow>
   (case accumulator G k of
      Inl e \<Rightarrow> order_loop clk G Oid cap cur order ticks = Inl e
    | Inr R \<Rightarrow> Point_eq R (PyPoint Oid) \<longrightarrow>
        (\<exists>n. order_loop clk G Oid cap cur order ticks = Inr (Some (int k + 1), clk n - clk 0)))"
proof (induction "k - Suc j" arbitrary: j cur order ticks)
  case 0
  then have k: "k = Suc j" by simp
  from "0.prems"(2,4) k have le: "order \<le> cap" by simp
  have acc: "accumulator G k = Point_add cur G" using "0.prems"(1) k by simp
  show ?case
  proof (cases "Point_add cur G")
    case (Inl e)
    with le acc show ?thesis
      by (simp add: order_loop.simps [of clk G Oid cap cur order ticks])
  next
    case (Inr R)
    have res: "order_loop clk G Oid cap cur order ticks = Inr (Some (order + 1), clk ticks - clk 0)"
      if "Point_eq R (PyPoint Oid)"
      using that le Inr by (simp add: order_loop.simps [of clk G Oid cap cur order ticks])
    have "order + 1 = int k + 1" using "0.prems"(2) k by simp
    with res acc Inr show ?thesis by auto
  qed
next
  case (Suc m)
  from Suc.hyps(2) have jk: "Suc j < k" by simp
  with Suc.prems(2,4) have le: "order \<le> cap" by simp
  from jk Suc.prems(5) obtain R where R: "accumulator G (Suc j) = Inr R"
    and nid: "\<not> Point_eq R (PyPoint Oid)" by blast
  from R Suc.prems(1) have add: "Point_add cur G = Inr R" by simp
  have m: "m = k - Suc (Suc j)" using Suc.hyps(2) by simp
  have o: "order + 1 = int (Suc j) + 1" using Suc.prems(2) by simp
  have rest: "\<forall>i. Suc j < i \<and> i < k \<longrightarrow>
      (\<exists>R. accumulator G i = Inr R \<and> \<not> Point_eq R (PyPoint Oid))"
    using Suc.prems(5) by auto
  have step: "order_loop clk G Oid cap cur order ticks =
      order_loop clk G Oid cap R (order + 1)
        (if (order + 1) mod 100000 = 0 then ticks + 1 else ticks)"
    using le add nid by (simp add: order_loop.simps [of clk G Oid cap cur order ticks])
  from Suc.hyps(1) [OF m R o jk Suc.prems(4) rest,
      of "if (order + 1) mod 100000 = 0 then ticks + 1 else ticks"]
  show ?case unfolding step .
qed

lemma order_loop_bound:
  "order_loop clk G Oid cap cur order ticks = Inr (Some n, t) \<Longrightarrow> order < n \<and> n \<le> cap + 1"
proof (induction clk G Oid cap cur order ticks rule: order_loop.induct)
  case (1 clk G Oid cap cur order ticks)
  show ?case
  proof (cases "order \<le> cap")
    case False
    with "1.prems" show ?thesis
      by (simp add: order_loop.simps [of clk G Oid cap cur order ticks])
  next
    case True
    show ?thesis
    proof (cases "Point_add cur G")
      case (Inl e)
      with True "1.prems" show ?thesis
        by (simp add: order_loop.simps [of clk G Oid cap cur order ticks])
    next
      case (Inr nxt)
      show ?thesis
      proof (cases "Point_eq nxt (PyPoint Oid)")
        case True
        with \<open>order \<le> cap\<close> Inr "1.prems" show ?thesis
          by (auto simp add: order_loop.simps [of clk G Oid cap cur order ticks])
      next
        case False
        with \<open>order \<le> cap\<close> Inr "1.prems"
        have "order_loop clk G Oid cap nxt (order + 1)
                (if (order + 1) mod 100000 = 0 then ticks + 1 else ticks) = Inr (Some n, t)"
          by (simp add: order_loop.simps [of clk G Oid cap cur order ticks])
        from "1.IH" [OF \<open>order \<le> cap\<close> Inr False this] show ?thesis by simp
      qed
    qed
  qed
qed

lemma order_loop_outcomes:
  assumes "1 \<le> k" "int k \<le> cap" "no_identity_before G Oid k"
  shows "accumulator G k = Inl e \<Longrightarrow> order_loop clk G Oid cap G 1 1 = Inl e"
    and "accumulator G k = Inr R \<Longrightarrow> Point_eq R (PyPoint Oid) \<Longrightarrow>
           \<exists>n. order_loop clk G Oid cap G 1 1 = Inr (Some (int k + 1), clk n - clk 0)"
proof -
  have a0: "accumulator G 0 = Inr G" by simp
  have o: "(1::int) = int 0 + 1" by simp
  have k: "0 < k" using assms(1) by simp
  have before: "\<forall>i. 0 < i \<and> i < k \<longrightarrow>
      (\<exists>R. accumulator G i = Inr R \<and> \<not> Point_eq R (PyPoint Oid))"
    using no_identity_beforeD [OF assms(3)] by (simp add: Suc_le_eq)
  note first = order_loop_first [OF a0 o k assms(2) before, of clk 1]
  show "accumulator G k = Inl e \<Longrightarrow> order_loop clk G Oid cap G 1 1 = Inl e"
    using first by simp
  show "accumulator G k = Inr R \<Longrightarrow> Point_eq R (PyPoint Oid) \<Longrightarrow>
           \<exists>n. order_loop clk G Oid cap G 1 1 = Inr (Some (int k + 1), clk n - clk 0)"
    using first by simp
qed

lemma order_loop_exhausted:
  assumes "no_identity_before G Oid (Suc (nat cap))"
  shows "\<exists>n. order_loop clk G Oid cap G 1 1 = Inr (None, clk n - clk 0)"
proof -
  have a0: "accumulator G 0 = Inr G" by simp
  have o: "(1::int) = int 0 + 1" by simp
  have never: "\<forall>k. 0 < k \<and> int k \<le> cap \<longrightarrow>
       (\<exists>R. accumulator G k = Inr R \<and> \<not> Point_eq R (PyPoint Oid))"
  proof (intro allI impI)
    fix k :: nat assume "0 < k \<and> int k \<le> cap"
    then have "1 \<le> k" "k < Suc (nat cap)" by linarith+
    from no_identity_beforeD [OF assms this]
    show "\<exists>R. accumulator G k = Inr R \<and> \<not> Point_eq R (PyPoint Oid)" .
  qed
  from order_loop_cap [OF a0 o never, of clk 1] show ?thesis .
qed

lemma find_order_brute_force_loop:
  assumes "Px G \<noteq> None"
  shows "find_order_brute_force clk G
     = order_loop clk G \<lparr>Px = None, Py = None, Pa = Pa G, Pb = Pb G, Pp = Pp G\<rparr>
         (2 * Pp G + 2) G 1 1"
proof (cases "Px G")
  case None
  with assms show ?thesis by simp
next
  case (Some x)
  then show ?thesis by (simp add: find_order_brute_force_def Point_init_def)
qed

subsection \<open>Point addition on reduced coordinates\<close>

lemma mod_inv_prime:
  assumes "odd_prime p" "0 < d" "d < p"
  shows "\<exists>r. mod_inv d p = Inr r \<and> (d * r) mod p = 1"
proof -
  from assms(1) have p: "2 < p" by (rule odd_prime_gt)
  from assms(2,3) have "\<not> p dvd d" by (simp add: zdvd_not_zless)
  with assms(1) have "coprime p d" by (rule odd_prime_coprime)
  then have g: "gcd d p = 1" by (simp add: coprime_iff_gcd_eq_1 gcd.commute)
  obtain g x y where r: "extended_gcd d p = (g, x, y)"
    by (cases "extended_gcd d p") auto
  from extended_gcd_sign [of d p] r g assms(2) have g1: "g = 1" by simp
  from r g1 p have res: "mod_inv d p = Inr (x mod p)" by (simp add: mod_inv_def)
  from extended_gcd_bezout [OF r] g1 have "d * x = 1 + p * (- y)" by simp
  then have "(d * x) mod p = 1 mod p" by (simp only: mod_mult_self2)
  then have "(d * (x mod p)) mod p = 1" using p by (simp add: mod_mult_right_eq)
  with res show ?thesis by simp
qed

lemma add_finish_value:
  assumes "odd_prime p" "0 < d" "d < p"
  shows "\<exists>l. 0 \<le> l \<and> l < p \<and> p dvd (l * d - n) \<and>
             add_finish x1 y1 x2 a b p n d =
               Point_init (Some ((l ^ 2 - x1 - x2) mod p))
                 (Some ((l * (x1 - (l ^ 2 - x1 - x2) mod p) - y1) mod p)) a b p"
proof -
  from assms(1) have p: "2 < p" by (rule odd_prime_gt)
  from mod_inv_prime [OF assms] obtain r where r: "mod_inv d p = Inr r" "(d * r) mod p = 1"
    by blast
  define l where "l = (n * r) mod p"
  have rng: "0 \<le> l" "l < p" using p by (simp_all add: l_def)
  have "(l * d) mod p = ((n * r) * d) mod p"
    unfolding l_def by (rule mod_mult_left_eq)
  also have "(n * r) * d = n * (d * r)" by simp
  also have "(n * (d * r)) mod p = (n * ((d * r) mod p)) mod p"
    by (rule mod_mult_right_eq [symmetric])
  also have "\<dots> = n mod p" by (simp only: r(2) mult_1_right)
  finally have "(l * d) mod p = n mod p" .
  then have dv: "p dvd (l * d - n)" by (simp only: mod_eq_dvd_iff)
  have x3: "(pow_mod l 2 p - x1 - x2) mod p = (l ^ 2 - x1 - x2) mod p"
  proof -
    have "(l ^ 2 mod p - (x1 + x2)) mod p = (l ^ 2 - (x1 + x2)) mod p"
      by (rule mod_diff_left_eq)
    then show ?thesis by (simp add: pow_mod_def diff_diff_eq)
  qed
  have "add_finish x1 y1 x2 a b p n d =
          Point_init (Some ((pow_mod l 2 p - x1 - x2) mod p))
            (Some ((l * (x1 - (pow_mod l 2 p - x1 - x2) mod p) - y1) mod p)) a b p"
    unfolding add_finish_def l_def by (simp only: r(1) sum.case Let_def)
  then have "add_finish x1 y1 x2 a b p n d =
               Point_init (Some ((l ^ 2 - x1 - x2) mod p))
                 (Some ((l * (x1 - (l ^ 2 - x1 - x2) mod p) - y1) mod p)) a b p"
    by (simp only: x3)
  with rng dv show ?thesis by blast
qed

lemma is_on_curve_dvd:
  "is_on_curve \<lparr>Px = Some x, Py = Some y, Pa = a, Pb = b, Pp = p\<rparr>
     \<longleftrightarrow> p dvd (x ^ 3 + a * x + b - y ^ 2)"
proof -
  have "(x ^ 3 mod p + (a * x + b)) mod p = (x ^ 3 + (a * x + b)) mod p"
    by (rule mod_add_left_eq)
  then have "(pow_mod x 3 p + a * x + b) mod p = (x ^ 3 + a * x + b) mod p"
    by (simp add: pow_mod_def add.assoc)
  then have "is_on_curve \<lparr>Px = Some x, Py = Some y, Pa = a, Pb = b, Pp = p\<rparr>
     \<longleftrightarrow> (x ^ 3 + a * x + b) mod p = y ^ 2 mod p"
    by (auto simp add: is_on_curve_def pow_mod_def)
  then show ?thesis by (simp add: mod_eq_dvd_iff)
qed

lemma chord_identity:
  fixes x1 x2 x3 y1 l a b :: int
  shows "(x2 - x1) * (x3 ^ 3 + a * x3 + b - (l * (x3 - x1) + y1) ^ 2)
       = (x2 - x1) * ((x3 - x1) * (x3 - x2) * (x3 - (l ^ 2 - x1 - x2)))
         + (x3 - x1) * ((x2 ^ 3 + a * x2 + b - (l * (x2 - x1) + y1) ^ 2)
                        - (x1 ^ 3 + a * x1 + b - y1 ^ 2))
         + (x2 - x1) * (x1 ^ 3 + a * x1 + b - y1 ^ 2)"
  by algebra

lemma tangent_identity:
  fixes x1 x3 y1 l a b :: int
  shows "x3 ^ 3 + a * x3 + b - (l * (x3 - x1) + y1) ^ 2
       = (x3 - x1) ^ 2 * (x3 - (l ^ 2 - 2 * x1))
         + (3 * x1 ^ 2 + a - 2 * l * y1) * (x3 - x1)
         + (x1 ^ 3 + a * x1 + b - y1 ^ 2)"
  by algebra


lemma slope_unique:
  assumes "odd_prime p" "\<not> p dvd d" "p dvd (l * d - n)" "p dvd (l' * d - n)"
    "0 \<le> l" "l < p" "0 \<le> l'" "l' < p"
  shows "l = l'"
proof -
  from assms(3,4) have "p dvd (l * d - n) - (l' * d - n)" by (rule dvd_diff)
  then have "p dvd (l - l') * d" by (simp add: algebra_simps)
  with assms(1) have "p dvd (l - l') \<or> p dvd d" by (rule odd_prime_dvd_mult)
  with assms(2) have "p dvd (l - l')" by simp
  then have "l mod p = l' mod p" by (simp add: mod_eq_dvd_iff)
  with assms(5-8) show ?thesis by simp
qed

lemma dvd_diff_squares:
  fixes p u v :: int
  assumes "p dvd (u - v) \<or> p dvd (u + v)"
  shows "p dvd (u ^ 2 - v ^ 2)"
proof -
  have "u ^ 2 - v ^ 2 = (u - v) * (u + v)" by (simp add: power2_eq_square algebra_simps)
  with assms show ?thesis by auto
qed

lemma chord_closed:
  assumes "odd_prime p" "\<not> p dvd (x2 - x1)"
    "p dvd (x1 ^ 3 + a * x1 + b - y1 ^ 2)" "p dvd (x2 ^ 3 + a * x2 + b - y2 ^ 2)"
    "p dvd (l * (x2 - x1) - (y2 - y1))"
    "p dvd (x3 - (l ^ 2 - x1 - x2))" "p dvd (y3 - (l * (x1 - x3) - y1))"
  shows "p dvd (x3 ^ 3 + a * x3 + b - y3 ^ 2)"
proof -
  define w where "w = l * (x3 - x1) + y1"
  define F1 where "F1 = x1 ^ 3 + a * x1 + b - y1 ^ 2"
  define F2 where "F2 = x2 ^ 3 + a * x2 + b - (l * (x2 - x1) + y1) ^ 2"
  have "p dvd ((l * (x2 - x1) + y1) - y2)" using assms(5) by (simp add: algebra_simps)
  then have "p dvd ((l * (x2 - x1) + y1) ^ 2 - y2 ^ 2)" by (intro dvd_diff_squares) simp
  with assms(4) have "p dvd (x2 ^ 3 + a * x2 + b - y2 ^ 2) - ((l * (x2 - x1) + y1) ^ 2 - y2 ^ 2)"
    by (rule dvd_diff)
  moreover have "(x2 ^ 3 + a * x2 + b - y2 ^ 2) - ((l * (x2 - x1) + y1) ^ 2 - y2 ^ 2) = F2"
    by (simp add: F2_def)
  ultimately have F2: "p dvd F2" by simp
  have F1: "p dvd F1" using assms(3) by (simp add: F1_def)
  have id: "(x2 - x1) * (x3 ^ 3 + a * x3 + b - w ^ 2)
       = (x2 - x1) * ((x3 - x1) * (x3 - x2) * (x3 - (l ^ 2 - x1 - x2)))
         + (x3 - x1) * (F2 - F1) + (x2 - x1) * F1"
    unfolding w_def F1_def F2_def by (rule chord_identity)
  have "p dvd (x2 - x1) * ((x3 - x1) * (x3 - x2) * (x3 - (l ^ 2 - x1 - x2)))"
    using assms(6) by simp
  moreover have "p dvd (x3 - x1) * (F2 - F1)" using F1 F2 by simp
  moreover have "p dvd (x2 - x1) * F1" using F1 by simp
  ultimately have "p dvd (x2 - x1) * (x3 ^ 3 + a * x3 + b - w ^ 2)"
    unfolding id by (intro dvd_add)
  with assms(1) have "p dvd (x2 - x1) \<or> p dvd (x3 ^ 3 + a * x3 + b - w ^ 2)"
    by (rule odd_prime_dvd_mult)
  with assms(2) have fw: "p dvd (x3 ^ 3 + a * x3 + b - w ^ 2)" by simp
  have "p dvd (y3 + w)" using assms(7) by (simp add: w_def algebra_simps)
  then have "p dvd (y3 ^ 2 - w ^ 2)" by (intro dvd_diff_squares) simp
  with fw have d: "p dvd (x3 ^ 3 + a * x3 + b - w ^ 2) - (y3 ^ 2 - w ^ 2)" by (rule dvd_diff)
  have e: "(x3 ^ 3 + a * x3 + b - w ^ 2) - (y3 ^ 2 - w ^ 2) = x3 ^ 3 + a * x3 + b - y3 ^ 2"
    by (simp add: algebra_simps)
  from d show ?thesis unfolding e .
qed

lemma tangent_closed:
  fixes p :: int
  assumes "p dvd (x1 ^ 3 + a * x1 + b - y1 ^ 2)"
    "p dvd (l * (2 * y1) - (3 * x1 ^ 2 + a))"
    "p dvd (x3 - (l ^ 2 - x1 - x1))" "p dvd (y3 - (l * (x1 - x3) - y1))"
  shows "p dvd (x3 ^ 3 + a * x3 + b - y3 ^ 2)"
proof -
  define w where "w = l * (x3 - x1) + y1"
  have id: "x3 ^ 3 + a * x3 + b - w ^ 2
       = (x3 - x1) ^ 2 * (x3 - (l ^ 2 - 2 * x1))
         + (3 * x1 ^ 2 + a - 2 * l * y1) * (x3 - x1)
         + (x1 ^ 3 + a * x1 + b - y1 ^ 2)"
    unfolding w_def by (rule tangent_identity)
  have "p dvd (x3 - (l ^ 2 - 2 * x1))" using assms(3) by (simp add: algebra_simps)
  then have t1: "p dvd (x3 - x1) ^ 2 * (x3 - (l ^ 2 - 2 * x1))" by simp
  have "p dvd - (l * (2 * y1) - (3 * x1 ^ 2 + a))" using assms(2) by (simp only: dvd_minus_iff)
  then have "p dvd (3 * x1 ^ 2 + a - 2 * l * y1)" by (simp add: algebra_simps)
  then have t2: "p dvd (3 * x1 ^ 2 + a - 2 * l * y1) * (x3 - x1)" by simp
  from t1 t2 assms(1) have fw: "p dvd (x3 ^ 3 + a * x3 + b - w ^ 2)"
    unfolding id by (intro dvd_add)
  have "p dvd (y3 + w)" using assms(4) by (simp add: w_def algebra_simps)
  then have "p dvd (y3 ^ 2 - w ^ 2)" by (intro dvd_diff_squares) simp
  with fw have d: "p dvd (x3 ^ 3 + a * x3 + b - w ^ 2) - (y3 ^ 2 - w ^ 2)" by (rule dvd_diff)
  have e: "(x3 ^ 3 + a * x3 + b - w ^ 2) - (y3 ^ 2 - w ^ 2) = x3 ^ 3 + a * x3 + b - y3 ^ 2"
    by (simp add: algebra_simps)
  from d show ?thesis unfolding e .
qed

lemma neg_mod_symmetric:
  fixes p y1 y2 :: int
  assumes "0 < p" "0 \<le> y1" "y1 < p" "0 \<le> y2" "y2 < p" "y1 = (- y2) mod p"
  shows "y2 = (- y1) mod p"
proof -
  have "(- y1) mod p = (- ((- y2) mod p)) mod p" using assms(6) by simp
  also have "\<dots> = (- (- y2)) mod p" by (simp only: mod_minus_eq)
  also have "\<dots> = y2" using assms(4,5) by simp
  finally show ?thesis by simp
qed

lemma tangent_sum:
  assumes "odd_prime p" "0 \<le> x1" "x1 < p" "0 < y1" "y1 < p"
    "p dvd (x1 ^ 3 + a * x1 + b - y1 ^ 2)"
  shows "\<exists>x3 y3. add_finish x1 y1 x1 a b p ((3 * pow_mod x1 2 p + a) mod p) ((2 * y1) mod p)
                   = Inr \<lparr>Px = Some x3, Py = Some y3, Pa = a, Pb = b, Pp = p\<rparr> \<and>
                 0 \<le> x3 \<and> x3 < p \<and> 0 \<le> y3 \<and> y3 < p \<and>
                 is_on_curve \<lparr>Px = Some x3, Py = Some y3, Pa = a, Pb = b, Pp = p\<rparr>"
proof -
  from assms(1) have p: "2 < p" by (rule odd_prime_gt)
  define d where "d = (2 * y1) mod p"
  define n where "n = (3 * pow_mod x1 2 p + a) mod p"
  have nd2: "\<not> p dvd 2" using p by (simp add: zdvd_not_zless)
  have ndy: "\<not> p dvd y1" using assms(4,5) by (simp add: zdvd_not_zless)
  have "\<not> p dvd 2 * y1" using odd_prime_dvd_mult [OF assms(1), of 2 y1] nd2 ndy by blast
  then have "d \<noteq> 0" by (simp add: d_def dvd_eq_mod_eq_0)
  moreover have "0 \<le> d" "d < p" using p by (simp_all add: d_def)
  ultimately have d: "0 < d" "d < p" by simp_all
  from add_finish_value [OF assms(1) d, of n x1 y1 x1 a b]
  obtain l where l: "p dvd (l * d - n)"
    and res: "add_finish x1 y1 x1 a b p n d =
               Point_init (Some ((l ^ 2 - x1 - x1) mod p))
                 (Some ((l * (x1 - (l ^ 2 - x1 - x1) mod p) - y1) mod p)) a b p" by blast
  define x3 where "x3 = (l ^ 2 - x1 - x1) mod p"
  define y3 where "y3 = (l * (x1 - x3) - y1) mod p"
  have dd: "p dvd (d - 2 * y1)" by (simp add: d_def mod_eq_dvd_iff [symmetric])
  have "(3 * (x1 ^ 2 mod p) + a) mod p = ((3 * (x1 ^ 2 mod p)) mod p + a) mod p"
    by (rule mod_add_left_eq [symmetric])
  also have "(3 * (x1 ^ 2 mod p)) mod p = (3 * x1 ^ 2) mod p"
    by (rule mod_mult_right_eq)
  also have "((3 * x1 ^ 2) mod p + a) mod p = (3 * x1 ^ 2 + a) mod p"
    by (rule mod_add_left_eq)
  finally have "(3 * (x1 ^ 2 mod p) + a) mod p = (3 * x1 ^ 2 + a) mod p" .
  then have nn: "p dvd (n - (3 * x1 ^ 2 + a))"
    by (simp add: n_def pow_mod_def mod_eq_dvd_iff [symmetric])
  have e: "l * (2 * y1) - (3 * x1 ^ 2 + a) = (l * d - n) - l * (d - 2 * y1) + (n - (3 * x1 ^ 2 + a))"
    by (simp add: algebra_simps)
  have "p dvd (l * d - n) - l * (d - 2 * y1) + (n - (3 * x1 ^ 2 + a))"
  proof -
    from dd have "p dvd l * (d - 2 * y1)" by (rule dvd_mult)
    with l have "p dvd (l * d - n) - l * (d - 2 * y1)" by (rule dvd_diff)
    then show ?thesis using nn by (rule dvd_add)
  qed
  then have slope: "p dvd (l * (2 * y1) - (3 * x1 ^ 2 + a))" unfolding e .
  have dx: "p dvd (x3 - (l ^ 2 - x1 - x1))" by (simp add: x3_def mod_eq_dvd_iff [symmetric])
  have dy: "p dvd (y3 - (l * (x1 - x3) - y1))" by (simp add: y3_def mod_eq_dvd_iff [symmetric])
  from tangent_closed [OF assms(6) slope dx dy]
  have "is_on_curve \<lparr>Px = Some x3, Py = Some y3, Pa = a, Pb = b, Pp = p\<rparr>"
    by (simp only: is_on_curve_dvd)
  moreover have "0 \<le> x3" "x3 < p" "0 \<le> y3" "y3 < p" using p by (simp_all add: x3_def y3_def)
  moreover from res have "add_finish x1 y1 x1 a b p n d = Point_init (Some x3) (Some y3) a b p"
    by (simp only: x3_def y3_def)
  ultimately show ?thesis using p unfolding n_def d_def by (simp add: Point_init_def)
qed


lemma chord_sum:
  assumes "odd_prime p" "0 \<le> x1" "x1 < p" "0 \<le> x2" "x2 < p" "x1 \<noteq> x2"
    "p dvd (x1 ^ 3 + a * x1 + b - y1 ^ 2)" "p dvd (x2 ^ 3 + a * x2 + b - y2 ^ 2)"
  shows "\<exists>l. 0 \<le> l \<and> l < p \<and> p dvd (l * (x2 - x1) - (y2 - y1)) \<and>
           add_finish x1 y1 x2 a b p ((y2 - y1) mod p) ((x2 - x1) mod p)
             = Inr \<lparr>Px = Some ((l ^ 2 - x1 - x2) mod p),
                    Py = Some ((l * (x1 - (l ^ 2 - x1 - x2) mod p) - y1) mod p),
                    Pa = a, Pb = b, Pp = p\<rparr> \<and>
           is_on_curve \<lparr>Px = Some ((l ^ 2 - x1 - x2) mod p),
                    Py = Some ((l * (x1 - (l ^ 2 - x1 - x2) mod p) - y1) mod p),
                    Pa = a, Pb = b, Pp = p\<rparr>"
proof -
  from assms(1) have p: "2 < p" by (rule odd_prime_gt)
  define d where "d = (x2 - x1) mod p"
  define n where "n = (y2 - y1) mod p"
  have ndx: "\<not> p dvd (x2 - x1)"
  proof
    assume "p dvd (x2 - x1)"
    then have "x2 mod p = x1 mod p" by (simp add: mod_eq_dvd_iff)
    with assms(2-6) show False by simp
  qed
  then have "d \<noteq> 0" by (simp add: d_def dvd_eq_mod_eq_0)
  moreover have "0 \<le> d" "d < p" using p by (simp_all add: d_def)
  ultimately have d: "0 < d" "d < p" by simp_all
  from add_finish_value [OF assms(1) d, of n x1 y1 x2 a b]
  obtain l where rng: "0 \<le> l" "l < p" and l: "p dvd (l * d - n)"
    and res: "add_finish x1 y1 x2 a b p n d =
               Point_init (Some ((l ^ 2 - x1 - x2) mod p))
                 (Some ((l * (x1 - (l ^ 2 - x1 - x2) mod p) - y1) mod p)) a b p" by blast
  define x3 where "x3 = (l ^ 2 - x1 - x2) mod p"
  define y3 where "y3 = (l * (x1 - x3) - y1) mod p"
  have dd: "p dvd (d - (x2 - x1))" by (simp add: d_def mod_eq_dvd_iff [symmetric])
  have nn: "p dvd (n - (y2 - y1))" by (simp add: n_def mod_eq_dvd_iff [symmetric])
  have e: "l * (x2 - x1) - (y2 - y1) = (l * d - n) - l * (d - (x2 - x1)) + (n - (y2 - y1))"
    by (simp add: algebra_simps)
  have "p dvd (l * d - n) - l * (d - (x2 - x1)) + (n - (y2 - y1))"
  proof -
    from dd have "p dvd l * (d - (x2 - x1))" by (rule dvd_mult)
    with l have "p dvd (l * d - n) - l * (d - (x2 - x1))" by (rule dvd_diff)
    then show ?thesis using nn by (rule dvd_add)
  qed
  then have slope: "p dvd (l * (x2 - x1) - (y2 - y1))" unfolding e .
  have dx: "p dvd (x3 - (l ^ 2 - x1 - x2))" by (simp add: x3_def mod_eq_dvd_iff [symmetric])
  have dy: "p dvd (y3 - (l * (x1 - x3) - y1))" by (simp add: y3_def mod_eq_dvd_iff [symmetric])
  from chord_closed [OF assms(1) ndx assms(7,8) slope dx dy]
  have on: "is_on_curve \<lparr>Px = Some x3, Py = Some y3, Pa = a, Pb = b, Pp = p\<rparr>"
    by (simp only: is_on_curve_dvd)
  from res have "add_finish x1 y1 x2 a b p n d = Point_init (Some x3) (Some y3) a b p"
    by (simp only: x3_def y3_def)
  with on p have "add_finish x1 y1 x2 a b p n d
      = Inr \<lparr>Px = Some x3, Py = Some y3, Pa = a, Pb = b, Pp = p\<rparr>"
    by (simp add: Point_init_def)
  with on rng slope show ?thesis unfolding n_def d_def x3_def y3_def by blast
qed

lemma chord_sum_commute:
  assumes "odd_prime p" "0 \<le> x1" "x1 < p" "0 \<le> x2" "x2 < p" "x1 \<noteq> x2"
    "p dvd (x1 ^ 3 + a * x1 + b - y1 ^ 2)" "p dvd (x2 ^ 3 + a * x2 + b - y2 ^ 2)"
  shows "\<exists>x3 y3. add_finish x1 y1 x2 a b p ((y2 - y1) mod p) ((x2 - x1) mod p)
                   = Inr \<lparr>Px = Some x3, Py = Some y3, Pa = a, Pb = b, Pp = p\<rparr> \<and>
                 add_finish x2 y2 x1 a b p ((y1 - y2) mod p) ((x1 - x2) mod p)
                   = Inr \<lparr>Px = Some x3, Py = Some y3, Pa = a, Pb = b, Pp = p\<rparr> \<and>
                 0 \<le> x3 \<and> x3 < p \<and> 0 \<le> y3 \<and> y3 < p \<and>
                 is_on_curve \<lparr>Px = Some x3, Py = Some y3, Pa = a, Pb = b, Pp = p\<rparr>"
proof -
  from assms(1) have p: "2 < p" by (rule odd_prime_gt)
  have ndx: "\<not> p dvd (x2 - x1)"
  proof
    assume "p dvd (x2 - x1)"
    then have "x2 mod p = x1 mod p" by (simp add: mod_eq_dvd_iff)
    with assms(2-6) show False by simp
  qed
  from chord_sum [OF assms]
  obtain l where l: "0 \<le> l" "l < p" "p dvd (l * (x2 - x1) - (y2 - y1))"
    and r1: "add_finish x1 y1 x2 a b p ((y2 - y1) mod p) ((x2 - x1) mod p)
             = Inr \<lparr>Px = Some ((l ^ 2 - x1 - x2) mod p),
                    Py = Some ((l * (x1 - (l ^ 2 - x1 - x2) mod p) - y1) mod p),
                    Pa = a, Pb = b, Pp = p\<rparr>"
    and on: "is_on_curve \<lparr>Px = Some ((l ^ 2 - x1 - x2) mod p),
                    Py = Some ((l * (x1 - (l ^ 2 - x1 - x2) mod p) - y1) mod p),
                    Pa = a, Pb = b, Pp = p\<rparr>" by blast
  from assms(6) have ne: "x2 \<noteq> x1" by simp
  from chord_sum [OF assms(1,4,5,2,3) ne assms(8,7)]
  obtain l' where l': "0 \<le> l'" "l' < p" "p dvd (l' * (x1 - x2) - (y1 - y2))"
    and r2: "add_finish x2 y2 x1 a b p ((y1 - y2) mod p) ((x1 - x2) mod p)
             = Inr \<lparr>Px = Some ((l' ^ 2 - x2 - x1) mod p),
                    Py = Some ((l' * (x2 - (l' ^ 2 - x2 - x1) mod p) - y2) mod p),
                    Pa = a, Pb = b, Pp = p\<rparr>" by blast
  have e1: "l' * (x2 - x1) - (y2 - y1) = - (l' * (x1 - x2) - (y1 - y2))"
    by (simp add: algebra_simps)
  have "p dvd (l' * (x2 - x1) - (y2 - y1))"
    unfolding e1 using l'(3) by (simp only: dvd_minus_iff)
  with assms(1) ndx l(3) have ll: "l = l'" using l(1,2) l'(1,2) by (rule slope_unique)
  define x3 where "x3 = (l ^ 2 - x1 - x2) mod p"
  have x3': "(l ^ 2 - x2 - x1) mod p = x3" by (simp add: x3_def algebra_simps)
  have e2: "(l * (x1 - x3) - y1) - (l * (x2 - x3) - y2) = - (l * (x2 - x1) - (y2 - y1))"
    by (simp add: algebra_simps)
  have "p dvd (l * (x1 - x3) - y1) - (l * (x2 - x3) - y2)"
    unfolding e2 using l(3) by (simp only: dvd_minus_iff)
  then have "(l * (x1 - x3) - y1) mod p = (l * (x2 - x3) - y2) mod p"
    by (simp only: mod_eq_dvd_iff)
  then have y3': "(l * (x2 - x3) - y2) mod p = (l * (x1 - x3) - y1) mod p"
    by (rule sym)
  from r2 have r2': "add_finish x2 y2 x1 a b p ((y1 - y2) mod p) ((x1 - x2) mod p)
             = Inr \<lparr>Px = Some x3, Py = Some ((l * (x1 - x3) - y1) mod p), Pa = a, Pb = b, Pp = p\<rparr>"
    by (simp only: ll [symmetric] x3' y3')
  from r1 have r1': "add_finish x1 y1 x2 a b p ((y2 - y1) mod p) ((x2 - x1) mod p)
             = Inr \<lparr>Px = Some x3, Py = Some ((l * (x1 - x3) - y1) mod p), Pa = a, Pb = b, Pp = p\<rparr>"
    by (simp only: x3_def)
  from on have on': "is_on_curve \<lparr>Px = Some x3, Py = Some ((l * (x1 - x3) - y1) mod p),
      Pa = a, Pb = b, Pp = p\<rparr>" by (simp only: x3_def)
  have "0 \<le> x3" "x3 < p" "0 \<le> (l * (x1 - x3) - y1) mod p" "(l * (x1 - x3) - y1) mod p < p"
    using p by (simp_all add: x3_def)
  with r1' r2' on' show ?thesis by blast
qed


lemma same_x_cases:
  assumes "odd_prime p" "0 \<le> y1" "y1 < p" "0 \<le> y2" "y2 < p"
    "p dvd (x ^ 3 + a * x + b - y1 ^ 2)" "p dvd (x ^ 3 + a * x + b - y2 ^ 2)"
  shows "y1 = (- y2) mod p \<or> y1 = y2"
proof -
  from assms(1) have p: "2 < p" by (rule odd_prime_gt)
  from assms(7,6) have "p dvd (x ^ 3 + a * x + b - y2 ^ 2) - (x ^ 3 + a * x + b - y1 ^ 2)"
    by (rule dvd_diff)
  moreover have "(x ^ 3 + a * x + b - y2 ^ 2) - (x ^ 3 + a * x + b - y1 ^ 2)
      = (y1 - y2) * (y1 + y2)" by (simp add: power2_eq_square algebra_simps)
  ultimately have "p dvd (y1 - y2) * (y1 + y2)" by simp
  with assms(1) have "p dvd (y1 - y2) \<or> p dvd (y1 + y2)" by (rule odd_prime_dvd_mult)
  then show ?thesis
  proof
    assume "p dvd (y1 - y2)"
    then have "y1 mod p = y2 mod p" by (simp only: mod_eq_dvd_iff)
    with assms(2-5) show ?thesis by simp
  next
    assume "p dvd (y1 + y2)"
    then have "p dvd (y1 - (- y2))" by simp
    then have "y1 mod p = (- y2) mod p" by (simp only: mod_eq_dvd_iff)
    with assms(2,3) show ?thesis by simp
  qed
qed

lemma add_affine_commute:
  assumes "odd_prime p" "0 \<le> x1" "x1 < p" "0 \<le> y1" "y1 < p"
    "0 \<le> x2" "x2 < p" "0 \<le> y2" "y2 < p"
    "p dvd (x1 ^ 3 + a * x1 + b - y1 ^ 2)" "p dvd (x2 ^ 3 + a * x2 + b - y2 ^ 2)"
  shows "\<exists>R. add_affine x1 y1 x2 y2 a b p = Inr R \<and> add_affine x2 y2 x1 y1 a b p = Inr R \<and>
             reduced_point a b p R"
proof -
  from assms(1) have p: "2 < p" by (rule odd_prime_gt)
  show ?thesis
  proof (cases "x1 = x2")
    case False
    from chord_sum_commute [OF assms(1,2,3,6,7) False assms(10,11)]
    obtain x3 y3 where
      "add_finish x1 y1 x2 a b p ((y2 - y1) mod p) ((x2 - x1) mod p)
         = Inr \<lparr>Px = Some x3, Py = Some y3, Pa = a, Pb = b, Pp = p\<rparr>"
      "add_finish x2 y2 x1 a b p ((y1 - y2) mod p) ((x1 - x2) mod p)
         = Inr \<lparr>Px = Some x3, Py = Some y3, Pa = a, Pb = b, Pp = p\<rparr>"
      "0 \<le> x3" "x3 < p" "0 \<le> y3" "y3 < p"
      "is_on_curve \<lparr>Px = Some x3, Py = Some y3, Pa = a, Pb = b, Pp = p\<rparr>" by blast
    with False show ?thesis
      by (intro exI [of _ "\<lparr>Px = Some x3, Py = Some y3, Pa = a, Pb = b, Pp = p\<rparr>"])
         (auto simp add: add_affine_def reduced_point_def)
  next
    case True
    show ?thesis
    proof (cases "y1 = (- y2) mod p")
      case neg: True
      from p have "0 < p" by simp
      from neg_mod_symmetric [OF this assms(4,5,8,9) neg] have "y2 = (- y1) mod p" .
      with True neg show ?thesis
        by (intro exI [of _ "\<lparr>Px = None, Py = None, Pa = a, Pb = b, Pp = p\<rparr>"])
           (simp add: add_affine_def Point_init_def reduced_point_def)
    next
      case nneg: False
      from assms(11) True have c2: "p dvd (x1 ^ 3 + a * x1 + b - y2 ^ 2)" by simp
      from same_x_cases [OF assms(1,4,5,8,9) assms(10) c2] nneg have eq: "y1 = y2" by simp
      have y0: "y1 \<noteq> 0"
      proof
        assume "y1 = 0"
        with eq have "y1 = (- y2) mod p" by simp
        with nneg show False by simp
      qed
      with assms(4) have ypos: "0 < y1" by simp
      from tangent_sum [OF assms(1,2,3) ypos assms(5,10)]
      obtain x3 y3 where
        "add_finish x1 y1 x1 a b p ((3 * pow_mod x1 2 p + a) mod p) ((2 * y1) mod p)
           = Inr \<lparr>Px = Some x3, Py = Some y3, Pa = a, Pb = b, Pp = p\<rparr>"
        "0 \<le> x3" "x3 < p" "0 \<le> y3" "y3 < p"
        "is_on_curve \<lparr>Px = Some x3, Py = Some y3, Pa = a, Pb = b, Pp = p\<rparr>" by blast
      with True eq nneg y0 show ?thesis
        by (intro exI [of _ "\<lparr>Px = Some x3, Py = Some y3, Pa = a, Pb = b, Pp = p\<rparr>"])
           (simp add: add_affine_def reduced_point_def)
    qed
  qed
qed

lemma reduced_point_affine:
  assumes "reduced_point a b p P" "Px P = Some x"
  shows "\<exists>y. P = \<lparr>Px = Some x, Py = Some y, Pa = a, Pb = b, Pp = p\<rparr> \<and>
             0 \<le> x \<and> x < p \<and> 0 \<le> y \<and> y < p \<and> p dvd (x ^ 3 + a * x + b - y ^ 2)"
proof (cases "Py P")
  case None
  with assms show ?thesis by (simp add: reduced_point_def)
next
  case (Some y)
  with assms have P: "P = \<lparr>Px = Some x, Py = Some y, Pa = a, Pb = b, Pp = p\<rparr>"
    by (cases P) (simp add: reduced_point_def)
  from assms Some have "0 \<le> x" "x < p" "0 \<le> y" "y < p" "is_on_curve P"
    by (simp_all add: reduced_point_def)
  with P show ?thesis by (simp add: is_on_curve_dvd)
qed

lemma reduced_point_identity:
  assumes "reduced_point a b p P" "Px P = None"
  shows "P = \<lparr>Px = None, Py = None, Pa = a, Pb = b, Pp = p\<rparr>"
proof (cases "Py P")
  case None
  with assms show ?thesis by (cases P) (simp add: reduced_point_def)
next
  case (Some y)
  with assms show ?thesis by (simp add: reduced_point_def)
qed

text \<open>
  Addition on reduced coordinates: for every odd prime \<open>p\<close>, every \<open>a\<close> and \<open>b\<close>, and
  every two points \<open>P\<close> and \<open>Q\<close> of the curve that are the identity or have both
  coordinates in \<open>0 .. p - 1\<close>, \<open>P + Q\<close> and \<open>Q + P\<close> raise nothing and give the same
  point, again with coordinates in \<open>0 .. p - 1\<close> and on the curve, so that
  \<open>P + Q == Q + P\<close> is true.
\<close>

theorem Point_add_reduced_commutes:
  assumes "odd_prime p" "reduced_point a b p P" "reduced_point a b p Q"
  shows "\<exists>R. Point_add P Q = Inr R \<and> Point_add Q P = Inr R \<and> reduced_point a b p R \<and>
             Point_eq R (PyPoint R)"
proof -
  from assms(1) have p: "2 < p" by (rule odd_prime_gt)
  have same: "Pp P = Pp Q" "Pa P = Pa Q" "Pb P = Pb Q" "Pp P = p" "Pa P = a" "Pb P = b"
    using assms(2,3) by (simp_all add: reduced_point_def)
  have refl: "Point_eq R (PyPoint R)" for R by (simp add: Point_eq_def)
  show ?thesis
  proof (cases "Px P")
    case PN: None
    note Pid = reduced_point_identity [OF assms(2) PN]
    show ?thesis
    proof (cases "Px Q")
      case None
      from reduced_point_identity [OF assms(3) None] Pid have "P = Q" by simp
      with PN assms(2) refl show ?thesis by (simp add: Point_add_def)
    next
      case (Some x2)
      with PN same assms(3) refl show ?thesis by (simp add: Point_add_def)
    qed
  next
    case PS: (Some x1)
    from reduced_point_affine [OF assms(2) PS]
    obtain y1 where P: "P = \<lparr>Px = Some x1, Py = Some y1, Pa = a, Pb = b, Pp = p\<rparr>"
      and r1: "0 \<le> x1" "x1 < p" "0 \<le> y1" "y1 < p" "p dvd (x1 ^ 3 + a * x1 + b - y1 ^ 2)"
      by blast
    show ?thesis
    proof (cases "Px Q")
      case None
      with PS same assms(2) refl show ?thesis by (simp add: Point_add_def)
    next
      case (Some x2)
      from reduced_point_affine [OF assms(3) Some]
      obtain y2 where Q: "Q = \<lparr>Px = Some x2, Py = Some y2, Pa = a, Pb = b, Pp = p\<rparr>"
        and r2: "0 \<le> x2" "x2 < p" "0 \<le> y2" "y2 < p" "p dvd (x2 ^ 3 + a * x2 + b - y2 ^ 2)"
        by blast
      from add_affine_commute [OF assms(1) r1(1-4) r2(1-4) r1(5) r2(5)]
      obtain R where "add_affine x1 y1 x2 y2 a b p = Inr R" "add_affine x2 y2 x1 y1 a b p = Inr R"
        "reduced_point a b p R" by blast
      with p refl show ?thesis by (simp add: P Q Point_add_def)
    qed
  qed
qed

theorem Point_add_reduced_commutes_witness:
  "odd_prime 23 \<and>
   reduced_point 1 1 23 \<lparr>Px = Some 3, Py = Some 10, Pa = 1, Pb = 1, Pp = 23\<rparr> \<and>
   reduced_point 1 1 23 \<lparr>Px = Some 9, Py = Some 7, Pa = 1, Pb = 1, Pp = 23\<rparr> \<and>
   (\<exists>R. Point_add \<lparr>Px = Some 3, Py = Some 10, Pa = 1, Pb = 1, Pp = 23\<rparr>
                     \<lparr>Px = Some 9, Py = Some 7, Pa = 1, Pb = 1, Pp = 23\<rparr> = Inr R \<and>
        Point_add \<lparr>Px = Some 9, Py = Some 7, Pa = 1, Pb = 1, Pp = 23\<rparr>
                  \<lparr>Px = Some 3, Py = Some 10, Pa = 1, Pb = 1, Pp = 23\<rparr> = Inr R \<and>
        reduced_point 1 1 23 R \<and> Point_eq R (PyPoint R))"
proof -
  have pr: "odd_prime 23" by code_simp
  have rP: "reduced_point 1 1 23 \<lparr>Px = Some 3, Py = Some 10, Pa = 1, Pb = 1, Pp = 23\<rparr>"
    by code_simp
  have rQ: "reduced_point 1 1 23 \<lparr>Px = Some 9, Py = Some 7, Pa = 1, Pb = 1, Pp = 23\<rparr>"
    by code_simp
  from Point_add_reduced_commutes [OF pr rP rQ] pr rP rQ show ?thesis by blast
qed

subsection \<open>The order search on a non-singular curve\<close>

lemma odd_prime_cancel:
  assumes "odd_prime p" "\<not> p dvd d" "p dvd d * e"
  shows "p dvd e"
  using odd_prime_dvd_mult [OF assms(1,3)] assms(2) by blast

lemma reduced_unique:
  fixes p :: int
  assumes "0 \<le> x" "x < p" "0 \<le> x'" "x' < p" "p dvd (x' - x)"
  shows "x' = x"
proof -
  from assms(5) have "x' mod p = x mod p" by (simp only: mod_eq_dvd_iff)
  with assms(1-4) show ?thesis by simp
qed

lemma reduced_not_dvd:
  fixes p :: int
  assumes "0 \<le> x" "x < p" "0 \<le> x'" "x' < p" "x' \<noteq> x"
  shows "\<not> p dvd (x' - x)"
  using reduced_unique [OF assms(1-4)] assms(5) by blast

lemma mod_dvd_diff:
  fixes p :: int
  shows "p dvd (e mod p - e)"
  by (simp add: mod_eq_dvd_iff [symmetric])

lemma singular_dvd:
  fixes p :: int
  assumes "p dvd (x ^ 3 + a * x + b)" "p dvd (3 * x ^ 2 + a)"
  shows "p dvd (4 * a ^ 3 + 27 * b ^ 2)"
  using assms by algebra

lemma tangent_slope:
  assumes "odd_prime p" "0 \<le> x1" "x1 < p" "0 < y1" "y1 < p"
    "p dvd (x1 ^ 3 + a * x1 + b - y1 ^ 2)"
  shows "\<exists>l. p dvd (l * (2 * y1) - (3 * x1 ^ 2 + a)) \<and>
           add_finish x1 y1 x1 a b p ((3 * pow_mod x1 2 p + a) mod p) ((2 * y1) mod p)
             = Inr \<lparr>Px = Some ((l ^ 2 - x1 - x1) mod p),
                    Py = Some ((l * (x1 - (l ^ 2 - x1 - x1) mod p) - y1) mod p),
                    Pa = a, Pb = b, Pp = p\<rparr> \<and>
           is_on_curve \<lparr>Px = Some ((l ^ 2 - x1 - x1) mod p),
                    Py = Some ((l * (x1 - (l ^ 2 - x1 - x1) mod p) - y1) mod p),
                    Pa = a, Pb = b, Pp = p\<rparr>"
proof -
  from assms(1) have p: "2 < p" by (rule odd_prime_gt)
  define d where "d = (2 * y1) mod p"
  define n where "n = (3 * pow_mod x1 2 p + a) mod p"
  have nd2: "\<not> p dvd 2" using p by (simp add: zdvd_not_zless)
  have ndy: "\<not> p dvd y1" using assms(4,5) by (simp add: zdvd_not_zless)
  have "\<not> p dvd 2 * y1" using odd_prime_dvd_mult [OF assms(1), of 2 y1] nd2 ndy by blast
  then have "d \<noteq> 0" by (simp add: d_def dvd_eq_mod_eq_0)
  moreover have "0 \<le> d" "d < p" using p by (simp_all add: d_def)
  ultimately have d: "0 < d" "d < p" by simp_all
  from add_finish_value [OF assms(1) d, of n x1 y1 x1 a b]
  obtain l where l: "p dvd (l * d - n)"
    and res: "add_finish x1 y1 x1 a b p n d =
               Point_init (Some ((l ^ 2 - x1 - x1) mod p))
                 (Some ((l * (x1 - (l ^ 2 - x1 - x1) mod p) - y1) mod p)) a b p" by blast
  define x3 where "x3 = (l ^ 2 - x1 - x1) mod p"
  define y3 where "y3 = (l * (x1 - x3) - y1) mod p"
  have dd: "p dvd (d - 2 * y1)" by (simp add: d_def mod_eq_dvd_iff [symmetric])
  have "(3 * (x1 ^ 2 mod p) + a) mod p = ((3 * (x1 ^ 2 mod p)) mod p + a) mod p"
    by (rule mod_add_left_eq [symmetric])
  also have "(3 * (x1 ^ 2 mod p)) mod p = (3 * x1 ^ 2) mod p"
    by (rule mod_mult_right_eq)
  also have "((3 * x1 ^ 2) mod p + a) mod p = (3 * x1 ^ 2 + a) mod p"
    by (rule mod_add_left_eq)
  finally have "(3 * (x1 ^ 2 mod p) + a) mod p = (3 * x1 ^ 2 + a) mod p" .
  then have nn: "p dvd (n - (3 * x1 ^ 2 + a))"
    by (simp add: n_def pow_mod_def mod_eq_dvd_iff [symmetric])
  have slope: "p dvd (l * (2 * y1) - (3 * x1 ^ 2 + a))"
    using l dd nn by algebra
  have dx: "p dvd (x3 - (l ^ 2 - x1 - x1))" by (simp add: x3_def mod_eq_dvd_iff [symmetric])
  have dy: "p dvd (y3 - (l * (x1 - x3) - y1))" by (simp add: y3_def mod_eq_dvd_iff [symmetric])
  from tangent_closed [OF assms(6) slope dx dy]
  have on: "is_on_curve \<lparr>Px = Some x3, Py = Some y3, Pa = a, Pb = b, Pp = p\<rparr>"
    by (simp only: is_on_curve_dvd)
  from res have "add_finish x1 y1 x1 a b p n d = Point_init (Some x3) (Some y3) a b p"
    by (simp only: x3_def y3_def)
  with on p have "add_finish x1 y1 x1 a b p n d
      = Inr \<lparr>Px = Some x3, Py = Some y3, Pa = a, Pb = b, Pp = p\<rparr>"
    by (simp add: Point_init_def)
  with on slope show ?thesis unfolding n_def d_def x3_def y3_def by blast
qed

text \<open>
  What \<open>add_affine\<close> computes on two points with reduced coordinates: the identity when
  the second is the negative of the first, and otherwise the third point of the curve on
  the line through them, given by a slope \<open>l\<close> (of the chord, or of the tangent).
\<close>

lemma add_affine_cases:
  assumes "odd_prime p" "0 \<le> x1" "x1 < p" "0 \<le> y1" "y1 < p"
    "0 \<le> x2" "x2 < p" "0 \<le> y2" "y2 < p"
    "p dvd (x1 ^ 3 + a * x1 + b - y1 ^ 2)" "p dvd (x2 ^ 3 + a * x2 + b - y2 ^ 2)"
  shows "(x1 = x2 \<and> p dvd (y1 + y2) \<and>
          add_affine x1 y1 x2 y2 a b p = Inr \<lparr>Px = None, Py = None, Pa = a, Pb = b, Pp = p\<rparr>) \<or>
         (\<exists>l x3 y3. add_affine x1 y1 x2 y2 a b p
                       = Inr \<lparr>Px = Some x3, Py = Some y3, Pa = a, Pb = b, Pp = p\<rparr> \<and>
            0 \<le> x3 \<and> x3 < p \<and> 0 \<le> y3 \<and> y3 < p \<and> p dvd (x3 ^ 3 + a * x3 + b - y3 ^ 2) \<and>
            p dvd (x3 - (l ^ 2 - x1 - x2)) \<and> p dvd (y3 - (l * (x1 - x3) - y1)) \<and>
            p dvd (l * (x2 - x1) - (y2 - y1)) \<and>
            (x1 = x2 \<longrightarrow> y1 = y2 \<and> \<not> p dvd y1 \<and> p dvd (l * (2 * y1) - (3 * x1 ^ 2 + a))))"
proof -
  from assms(1) have p: "2 < p" by (rule odd_prime_gt)
  show ?thesis
  proof (cases "x1 = x2")
    case False
    from chord_sum [OF assms(1,2,3,6,7) False assms(10,11)]
    obtain l where l: "p dvd (l * (x2 - x1) - (y2 - y1))"
      and res: "add_finish x1 y1 x2 a b p ((y2 - y1) mod p) ((x2 - x1) mod p)
             = Inr \<lparr>Px = Some ((l ^ 2 - x1 - x2) mod p),
                    Py = Some ((l * (x1 - (l ^ 2 - x1 - x2) mod p) - y1) mod p),
                    Pa = a, Pb = b, Pp = p\<rparr>"
      and on: "is_on_curve \<lparr>Px = Some ((l ^ 2 - x1 - x2) mod p),
                    Py = Some ((l * (x1 - (l ^ 2 - x1 - x2) mod p) - y1) mod p),
                    Pa = a, Pb = b, Pp = p\<rparr>" by blast
    define x3 where "x3 = (l ^ 2 - x1 - x2) mod p"
    define y3 where "y3 = (l * (x1 - x3) - y1) mod p"
    have dx: "p dvd (x3 - (l ^ 2 - x1 - x2))" by (simp add: x3_def mod_eq_dvd_iff [symmetric])
    have dy: "p dvd (y3 - (l * (x1 - x3) - y1))" by (simp add: y3_def mod_eq_dvd_iff [symmetric])
    have rng: "0 \<le> x3" "x3 < p" "0 \<le> y3" "y3 < p" using p by (simp_all add: x3_def y3_def)
    from on have on': "p dvd (x3 ^ 3 + a * x3 + b - y3 ^ 2)"
      by (simp only: is_on_curve_dvd x3_def [symmetric] y3_def [symmetric])
    from res False have "add_affine x1 y1 x2 y2 a b p
        = Inr \<lparr>Px = Some x3, Py = Some y3, Pa = a, Pb = b, Pp = p\<rparr>"
      by (simp add: add_affine_def x3_def y3_def)
    with rng on' dx dy l False show ?thesis by blast
  next
    case True
    show ?thesis
    proof (cases "y1 = (- y2) mod p")
      case neg: True
      have "p dvd ((- y2) mod p - (- y2))" by (rule mod_dvd_diff)
      with neg have "p dvd (y1 + y2)" by simp
      with True neg show ?thesis by (simp add: add_affine_def Point_init_def)
    next
      case nneg: False
      from assms(11) True have c2: "p dvd (x1 ^ 3 + a * x1 + b - y2 ^ 2)" by simp
      from same_x_cases [OF assms(1,4,5,8,9) assms(10) c2] nneg have eq: "y1 = y2" by simp
      have y0: "y1 \<noteq> 0"
      proof
        assume "y1 = 0"
        with eq have "y1 = (- y2) mod p" by simp
        with nneg show False by simp
      qed
      with assms(4) have ypos: "0 < y1" by simp
      then have ndy: "\<not> p dvd y1" using assms(5) by (simp add: zdvd_not_zless)
      from tangent_slope [OF assms(1,2,3) ypos assms(5,10)]
      obtain l where l: "p dvd (l * (2 * y1) - (3 * x1 ^ 2 + a))"
        and res: "add_finish x1 y1 x1 a b p ((3 * pow_mod x1 2 p + a) mod p) ((2 * y1) mod p)
             = Inr \<lparr>Px = Some ((l ^ 2 - x1 - x1) mod p),
                    Py = Some ((l * (x1 - (l ^ 2 - x1 - x1) mod p) - y1) mod p),
                    Pa = a, Pb = b, Pp = p\<rparr>"
        and on: "is_on_curve \<lparr>Px = Some ((l ^ 2 - x1 - x1) mod p),
                    Py = Some ((l * (x1 - (l ^ 2 - x1 - x1) mod p) - y1) mod p),
                    Pa = a, Pb = b, Pp = p\<rparr>" by blast
      define x3 where "x3 = (l ^ 2 - x1 - x1) mod p"
      define y3 where "y3 = (l * (x1 - x3) - y1) mod p"
      have dx: "p dvd (x3 - (l ^ 2 - x1 - x2))"
        using True by (simp add: x3_def mod_eq_dvd_iff [symmetric])
      have dy: "p dvd (y3 - (l * (x1 - x3) - y1))" by (simp add: y3_def mod_eq_dvd_iff [symmetric])
      have rng: "0 \<le> x3" "x3 < p" "0 \<le> y3" "y3 < p" using p by (simp_all add: x3_def y3_def)
      from on have on': "p dvd (x3 ^ 3 + a * x3 + b - y3 ^ 2)"
        by (simp only: is_on_curve_dvd x3_def [symmetric] y3_def [symmetric])
      from res True eq nneg y0 have "add_affine x1 y1 x2 y2 a b p
          = Inr \<lparr>Px = Some x3, Py = Some y3, Pa = a, Pb = b, Pp = p\<rparr>"
        by (simp add: add_affine_def x3_def y3_def)
      moreover have "p dvd (l * (x2 - x1) - (y2 - y1))" using True eq by simp
      ultimately show ?thesis using rng on' dx dy l True eq ndy by blast
    qed
  qed
qed

lemma chord_tangent_slope:
  fixes p :: int
  assumes "p dvd (x1 ^ 3 + a * x1 + b - y1 ^ 2)" "p dvd (x2 ^ 3 + a * x2 + b - y2 ^ 2)"
    "p dvd (l * (x2 - x1) - (y2 - y1))" "p dvd (l ^ 2 - x1 - 2 * x2)"
  shows "p dvd ((x2 - x1) * (l * (2 * y2) - (3 * x2 ^ 2 + a)))"
  using assms by algebra

text \<open>
  Adding \<open>G\<close> and then \<open>-G\<close> gives the point back, on a non-singular curve: the line
  through \<open>P + G\<close> and \<open>-G\<close> is the mirror image of the line through \<open>P\<close> and \<open>G\<close>.
\<close>

lemma add_affine_cancel:
  assumes pr: "odd_prime p" and ns: "\<not> p dvd (4 * a ^ 3 + 27 * b ^ 2)"
    and r1: "0 \<le> x1" "x1 < p" "0 \<le> y1" "y1 < p"
    and r2: "0 \<le> x2" "x2 < p" "0 \<le> y2" "y2 < p"
    and c1: "p dvd (x1 ^ 3 + a * x1 + b - y1 ^ 2)"
    and c2: "p dvd (x2 ^ 3 + a * x2 + b - y2 ^ 2)"
    and Z: "add_affine x1 y1 x2 y2 a b p = Inr Z"
  shows "Point_add Z \<lparr>Px = Some x2, Py = Some ((- y2) mod p), Pa = a, Pb = b, Pp = p\<rparr>
           = Inr \<lparr>Px = Some x1, Py = Some y1, Pa = a, Pb = b, Pp = p\<rparr>"
proof -
  from pr have p: "2 < p" by (rule odd_prime_gt)
  have nd2: "\<not> p dvd 2" using p by (simp add: zdvd_not_zless)
  define n where "n = (- y2) mod p"
  have "p dvd ((- y2) mod p - (- y2))" by (rule mod_dvd_diff)
  then have nn: "p dvd (n + y2)" by (simp add: n_def)
  have rn: "0 \<le> n" "n < p" using p by (simp_all add: n_def)
  have cn: "p dvd (x2 ^ 3 + a * x2 + b - n ^ 2)" using c2 nn by algebra
  from add_affine_cases [OF pr r1 r2 c1 c2]
  show ?thesis unfolding n_def [symmetric]
  proof (elim disjE exE conjE)
    assume x: "x1 = x2" and y: "p dvd (y1 + y2)"
      and res: "add_affine x1 y1 x2 y2 a b p = Inr \<lparr>Px = None, Py = None, Pa = a, Pb = b, Pp = p\<rparr>"
    from res Z have Zid: "Z = \<lparr>Px = None, Py = None, Pa = a, Pb = b, Pp = p\<rparr>" by simp
    have "p dvd (n - y1)" using y nn by algebra
    from reduced_unique [OF r1(3,4) rn this] have "n = y1" .
    with x Zid show "Point_add Z \<lparr>Px = Some x2, Py = Some n, Pa = a, Pb = b, Pp = p\<rparr>
           = Inr \<lparr>Px = Some x1, Py = Some y1, Pa = a, Pb = b, Pp = p\<rparr>"
      by (simp add: Point_add_def)
  next
    fix l x3 y3
    assume res: "add_affine x1 y1 x2 y2 a b p
                   = Inr \<lparr>Px = Some x3, Py = Some y3, Pa = a, Pb = b, Pp = p\<rparr>"
      and r3: "0 \<le> x3" "x3 < p" "0 \<le> y3" "y3 < p"
      and c3: "p dvd (x3 ^ 3 + a * x3 + b - y3 ^ 2)"
      and dx: "p dvd (x3 - (l ^ 2 - x1 - x2))"
      and dy: "p dvd (y3 - (l * (x1 - x3) - y1))"
      and S: "p dvd (l * (x2 - x1) - (y2 - y1))"
      and dbl: "x1 = x2 \<longrightarrow> y1 = y2 \<and> \<not> p dvd y1 \<and> p dvd (l * (2 * y1) - (3 * x1 ^ 2 + a))"
    from res Z have Zaff: "Z = \<lparr>Px = Some x3, Py = Some y3, Pa = a, Pb = b, Pp = p\<rparr>" by simp
    have step: "Point_add Z \<lparr>Px = Some x2, Py = Some n, Pa = a, Pb = b, Pp = p\<rparr>
        = add_affine x3 y3 x2 n a b p"
      using p by (simp add: Zaff Point_add_def)
    have T: "p dvd (l * (2 * y2) - (3 * x2 ^ 2 + a))" if x32: "x3 = x2"
    proof (cases "x1 = x2")
      case True
      with dbl show ?thesis by auto
    next
      case False
      from dx x32 have "p dvd (l ^ 2 - x1 - 2 * x2)" by algebra
      from chord_tangent_slope [OF c1 c2 S this]
      have "p dvd ((x2 - x1) * (l * (2 * y2) - (3 * x2 ^ 2 + a)))" .
      moreover from False have "\<not> p dvd (x2 - x1)"
        by (intro reduced_not_dvd [OF r1(1,2) r2(1,2)]) simp
      ultimately show ?thesis using odd_prime_cancel [OF pr] by blast
    qed
    from add_affine_cases [OF pr r3 r2(1,2) rn c3 cn]
    show "Point_add Z \<lparr>Px = Some x2, Py = Some n, Pa = a, Pb = b, Pp = p\<rparr>
           = Inr \<lparr>Px = Some x1, Py = Some y1, Pa = a, Pb = b, Pp = p\<rparr>"
    proof (elim disjE exE conjE)
      assume x32: "x3 = x2" and y3n: "p dvd (y3 + n)"
      from dy x32 have dy': "p dvd (y3 - (l * (x1 - x2) - y1))" by simp
      have "p dvd 2 * y2" using S dy' y3n nn by algebra
      with odd_prime_dvd_mult [OF pr this] nd2 have py2: "p dvd y2" by blast
      have "x1 \<noteq> x2"
      proof
        assume "x1 = x2"
        with dbl py2 show False by auto
      qed
      from T [OF x32] py2 have "p dvd (3 * x2 ^ 2 + a)" by algebra
      moreover from c2 py2 have "p dvd (x2 ^ 3 + a * x2 + b)" by algebra
      ultimately have "p dvd (4 * a ^ 3 + 27 * b ^ 2)" by (rule singular_dvd [rotated])
      with ns show ?thesis by simp
    next
      fix l' x4 y4
      assume res': "add_affine x3 y3 x2 n a b p
                   = Inr \<lparr>Px = Some x4, Py = Some y4, Pa = a, Pb = b, Pp = p\<rparr>"
        and r4: "0 \<le> x4" "x4 < p" "0 \<le> y4" "y4 < p"
        and dx': "p dvd (x4 - (l' ^ 2 - x3 - x2))"
        and dy': "p dvd (y4 - (l' * (x3 - x4) - y3))"
        and S': "p dvd (l' * (x2 - x3) - (n - y3))"
        and dbl': "x3 = x2 \<longrightarrow> y3 = n \<and> \<not> p dvd y3 \<and> p dvd (l' * (2 * y3) - (3 * x3 ^ 2 + a))"
      have sum: "p dvd (l' + l)"
      proof (cases "x3 = x2")
        case False
        have "p dvd ((x2 - x3) * (l' + l))" using S' nn dy S by algebra
        moreover from False have "\<not> p dvd (x2 - x3)"
          by (intro reduced_not_dvd [OF r3(1,2) r2(1,2)]) simp
        ultimately show ?thesis using odd_prime_cancel [OF pr] by blast
      next
        case True
        with dbl' have y3n: "y3 = n" and ndn: "\<not> p dvd n"
          and T': "p dvd (l' * (2 * n) - (3 * x2 ^ 2 + a))" by auto
        have "p dvd ((2 * n) * (l' + l))" using T' T [OF True] nn by algebra
        moreover have "\<not> p dvd 2 * n" using odd_prime_dvd_mult [OF pr, of 2 n] nd2 ndn by blast
        ultimately show ?thesis using odd_prime_cancel [OF pr] by blast
      qed
      have xx: "p dvd (x4 - x1)" using dx' dx sum by algebra
      have yy: "p dvd (y4 - y1)" using dy' dy sum xx by algebra
      from reduced_unique [OF r1(1,2) r4(1,2) xx] reduced_unique [OF r1(3,4) r4(3,4) yy]
      have "x4 = x1" "y4 = y1" .
      with res' step show ?thesis by simp
    qed
  qed
qed

lemma Point_eq_iff: "Point_eq P (PyPoint Q) \<longleftrightarrow> P = Q"
  by (cases P, cases Q) (auto simp add: Point_eq_def)

lemma Point_add_cancel:
  assumes pr: "odd_prime p" and ns: "\<not> p dvd (4 * a ^ 3 + 27 * b ^ 2)"
    and P: "reduced_point a b p P"
    and r2: "0 \<le> x2" "x2 < p" "0 \<le> y2" "y2 < p"
    and c2: "p dvd (x2 ^ 3 + a * x2 + b - y2 ^ 2)"
    and Z: "Point_add P \<lparr>Px = Some x2, Py = Some y2, Pa = a, Pb = b, Pp = p\<rparr> = Inr Z"
  shows "Point_add Z \<lparr>Px = Some x2, Py = Some ((- y2) mod p), Pa = a, Pb = b, Pp = p\<rparr> = Inr P"
proof (cases "Px P")
  case None
  from pr have p: "2 < p" by (rule odd_prime_gt)
  note Pid = reduced_point_identity [OF P None]
  from Z have Zg: "Z = \<lparr>Px = Some x2, Py = Some y2, Pa = a, Pb = b, Pp = p\<rparr>"
    by (simp add: Pid Point_add_def)
  define n where "n = (- y2) mod p"
  have rn: "0 \<le> n" "n < p" using p by (simp_all add: n_def)
  from p have "0 < p" by simp
  from neg_mod_symmetric [OF this rn r2(3,4) n_def] have "y2 = (- n) mod p" .
  with p show ?thesis unfolding n_def [symmetric]
    by (simp add: Zg Pid Point_add_def add_affine_def Point_init_def)
next
  case (Some x1)
  from pr have p: "2 < p" by (rule odd_prime_gt)
  from reduced_point_affine [OF P Some]
  obtain y1 where Pa: "P = \<lparr>Px = Some x1, Py = Some y1, Pa = a, Pb = b, Pp = p\<rparr>"
    and r1: "0 \<le> x1" "x1 < p" "0 \<le> y1" "y1 < p" and c1: "p dvd (x1 ^ 3 + a * x1 + b - y1 ^ 2)"
    by blast
  from Z p have "add_affine x1 y1 x2 y2 a b p = Inr Z" by (simp add: Pa Point_add_def)
  from add_affine_cancel [OF pr ns r1 r2 c1 c2 this] show ?thesis by (simp only: Pa)
qed

lemma Point_add_inj:
  assumes pr: "odd_prime p" and ns: "\<not> p dvd (4 * a ^ 3 + 27 * b ^ 2)"
    and P: "reduced_point a b p P" and Q: "reduced_point a b p Q"
    and G: "reduced_point a b p G" "Px G \<noteq> None"
    and "Point_add P G = Inr Z" "Point_add Q G = Inr Z"
  shows "P = Q"
proof -
  from G(2) obtain x2 where "Px G = Some x2" by blast
  from reduced_point_affine [OF G(1) this]
  obtain y2 where Ga: "G = \<lparr>Px = Some x2, Py = Some y2, Pa = a, Pb = b, Pp = p\<rparr>"
    and r2: "0 \<le> x2" "x2 < p" "0 \<le> y2" "y2 < p" and c2: "p dvd (x2 ^ 3 + a * x2 + b - y2 ^ 2)"
    by blast
  from Point_add_cancel [OF pr ns P r2 c2] Point_add_cancel [OF pr ns Q r2 c2] assms(7,8)
  have "Inr P = (Inr Q :: error + Point)" by (simp add: Ga)
  then show ?thesis by simp
qed

text \<open>A curve over \<open>p\<close> has at most \<open>2p\<close> points other than the identity.\<close>

lemma ordinates_card:
  assumes "odd_prime p"
  shows "card {y \<in> {0..<p}. p dvd (x ^ 3 + a * x + b - y ^ 2)} \<le> 2"
proof -
  define B where "B = {y \<in> {0..<p}. p dvd (x ^ 3 + a * x + b - y ^ 2)}"
  have "card B \<le> 2"
  proof (cases "B = {}")
    case True
    then show ?thesis by simp
  next
    case False
    then obtain y0 where "y0 \<in> B" by blast
    then have y0: "0 \<le> y0" "y0 < p" "p dvd (x ^ 3 + a * x + b - y0 ^ 2)"
      by (simp_all add: B_def)
    have "B \<subseteq> {(- y0) mod p, y0}"
    proof
      fix y assume "y \<in> B"
      then have y: "0 \<le> y" "y < p" "p dvd (x ^ 3 + a * x + b - y ^ 2)"
        by (simp_all add: B_def)
      from same_x_cases [OF assms y(1,2) y0(1,2) y(3) y0(3)]
      show "y \<in> {(- y0) mod p, y0}" by blast
    qed
    then have "card B \<le> card {(- y0) mod p, y0}" by (intro card_mono) simp_all
    also have "\<dots> \<le> 2" by (simp add: card_insert_if)
    finally show ?thesis .
  qed
  then show ?thesis by (simp only: B_def)
qed

lemma affine_points_card:
  assumes "odd_prime p"
  shows "finite {P. reduced_point a b p P \<and> Px P \<noteq> None}"
    and "card {P. reduced_point a b p P \<and> Px P \<noteq> None} \<le> 2 * nat p"
proof -
  define S where "S = (SIGMA x:{0..<p}. {y \<in> {0..<p}. p dvd (x ^ 3 + a * x + b - y ^ 2)})"
  define mk where "mk = (\<lambda>(x, y). \<lparr>Px = Some x, Py = Some y, Pa = a, Pb = b, Pp = p\<rparr>)"
  have finB: "finite {y \<in> {0..<p}. p dvd (x ^ 3 + a * x + b - y ^ 2)}" for x
    by (rule finite_subset [of _ "{0..<p}"]) auto
  have fin: "finite S" unfolding S_def using finB by (intro finite_SigmaI) simp_all
  have "card S = (\<Sum>x\<in>{0..<p}. card {y \<in> {0..<p}. p dvd (x ^ 3 + a * x + b - y ^ 2)})"
    unfolding S_def using finB by (intro card_SigmaI) blast+
  also have "\<dots> \<le> (\<Sum>x\<in>{0..<p}. 2)"
    by (intro sum_mono ordinates_card [OF assms])
  also have "\<dots> = 2 * nat p" by simp
  finally have cS: "card S \<le> 2 * nat p" .
  have sub: "{P. reduced_point a b p P \<and> Px P \<noteq> None} \<subseteq> mk ` S"
  proof
    fix P assume "P \<in> {P. reduced_point a b p P \<and> Px P \<noteq> None}"
    then have P: "reduced_point a b p P" and "Px P \<noteq> None" by simp_all
    then obtain x where "Px P = Some x" by blast
    from reduced_point_affine [OF P this]
    obtain y where "P = \<lparr>Px = Some x, Py = Some y, Pa = a, Pb = b, Pp = p\<rparr>"
      "0 \<le> x" "x < p" "0 \<le> y" "y < p" "p dvd (x ^ 3 + a * x + b - y ^ 2)" by blast
    then have "P = mk (x, y)" "(x, y) \<in> S" by (simp_all add: mk_def S_def)
    then show "P \<in> mk ` S" by blast
  qed
  from fin have fimg: "finite (mk ` S)" by simp
  from sub fimg show "finite {P. reduced_point a b p P \<and> Px P \<noteq> None}" by (rule finite_subset)
  from sub fimg have "card {P. reduced_point a b p P \<and> Px P \<noteq> None} \<le> card (mk ` S)"
    by (intro card_mono)
  also have "\<dots> \<le> card S" using fin by (rule card_image_le)
  finally show "card {P. reduced_point a b p P \<and> Px P \<noteq> None} \<le> 2 * nat p"
    using cS by simp
qed

text \<open>The accumulator of the search on a curve over an odd prime.\<close>

lemma accumulator_reduced:
  assumes "odd_prime p" "reduced_point a b p G"
  shows "\<exists>R. accumulator G k = Inr R \<and> reduced_point a b p R"
proof (induction k)
  case 0
  from assms(2) show ?case by simp
next
  case (Suc k)
  then obtain R where R: "accumulator G k = Inr R" "reduced_point a b p R" by blast
  from Point_add_reduced_commutes [OF assms(1) R(2) assms(2)]
  obtain R' where "Point_add R G = Inr R'" "reduced_point a b p R'" by blast
  with R(1) show ?case by simp
qed

lemma accumulator_inj_step:
  assumes pr: "odd_prime p" and ns: "\<not> p dvd (4 * a ^ 3 + 27 * b ^ 2)"
    and G: "reduced_point a b p G" "Px G \<noteq> None"
    and eq: "accumulator G (Suc i) = accumulator G (Suc j)"
  shows "accumulator G i = accumulator G j"
proof -
  from accumulator_reduced [OF pr G(1), of i]
  obtain R where R: "accumulator G i = Inr R" "reduced_point a b p R" by blast
  from accumulator_reduced [OF pr G(1), of j]
  obtain R' where R': "accumulator G j = Inr R'" "reduced_point a b p R'" by blast
  from accumulator_reduced [OF pr G(1), of "Suc i"]
  obtain Z where Z: "accumulator G (Suc i) = Inr Z" by blast
  from Z R(1) have a1: "Point_add R G = Inr Z" by simp
  from Z eq R'(1) have a2: "Point_add R' G = Inr Z" by simp
  from Point_add_inj [OF pr ns R(2) R'(2) G a1 a2] R(1) R'(1) show ?thesis by simp
qed

lemma accumulator_shift:
  assumes pr: "odd_prime p" and ns: "\<not> p dvd (4 * a ^ 3 + 27 * b ^ 2)"
    and G: "reduced_point a b p G" "Px G \<noteq> None"
  shows "accumulator G i = accumulator G (i + d) \<Longrightarrow> accumulator G 0 = accumulator G d"
proof (induction i)
  case 0
  then show ?case by simp
next
  case (Suc i)
  then have "accumulator G (Suc i) = accumulator G (Suc (i + d))" by simp
  from accumulator_inj_step [OF pr ns G this] Suc.IH show ?case by simp
qed

lemma accumulator_returns:
  assumes pr: "odd_prime p" and ns: "\<not> p dvd (4 * a ^ 3 + 27 * b ^ 2)"
    and G: "reduced_point a b p G" "Px G \<noteq> None"
  shows "\<exists>k. 1 \<le> k \<and> k \<le> 2 * nat p \<and>
             accumulator G k = Inr \<lparr>Px = None, Py = None, Pa = a, Pb = b, Pp = p\<rparr>"
proof (rule ccontr)
  let ?O = "\<lparr>Px = None, Py = None, Pa = a, Pb = b, Pp = p\<rparr>"
  let ?A = "{P. reduced_point a b p P \<and> Px P \<noteq> None}"
  assume "\<not> (\<exists>k. 1 \<le> k \<and> k \<le> 2 * nat p \<and> accumulator G k = Inr ?O)"
  then have never: "accumulator G k \<noteq> Inr ?O" if "1 \<le> k" "k \<le> 2 * nat p" for k
    using that by blast
  have O: "reduced_point a b p ?O" by (simp add: reduced_point_def)
  have G0: "G \<noteq> ?O" using G(2) by auto
  have first: "accumulator G k \<noteq> Inr ?O" if "k \<le> 2 * nat p" for k
  proof (cases k)
    case 0
    with G0 show ?thesis by simp
  next
    case (Suc j)
    with that never [of k] show ?thesis by simp
  qed
  have img: "accumulator G ` {0..2 * nat p} \<subseteq> Inr ` ?A"
  proof
    fix v assume "v \<in> accumulator G ` {0..2 * nat p}"
    then obtain k where k: "k \<le> 2 * nat p" "v = accumulator G k" by auto
    from accumulator_reduced [OF pr G(1), of k]
    obtain R where R: "accumulator G k = Inr R" "reduced_point a b p R" by blast
    have "Px R \<noteq> None"
    proof
      assume "Px R = None"
      from reduced_point_identity [OF R(2) this] R(1) first [OF k(1)] show False by simp
    qed
    with R k(2) show "v \<in> Inr ` ?A" by simp
  qed
  have finA: "finite (Inr ` ?A :: (error + Point) set)"
    using affine_points_card(1) [OF pr, of a b] by simp
  have "\<not> inj_on (accumulator G) {0..2 * nat p}"
  proof
    assume "inj_on (accumulator G) {0..2 * nat p}"
    from card_inj_on_le [OF this img finA]
    have "card {0..2 * nat p} \<le> card (Inr ` ?A :: (error + Point) set)" .
    also have "\<dots> \<le> card ?A" using affine_points_card(1) [OF pr] by (rule card_image_le)
    also have "\<dots> \<le> 2 * nat p" by (rule affine_points_card(2) [OF pr])
    finally show False by simp
  qed
  then obtain i j where ij: "i \<le> 2 * nat p" "j \<le> 2 * nat p" "i \<noteq> j"
    "accumulator G i = accumulator G j"
    by (auto simp add: inj_on_def)
  have "\<exists>i d. 0 < d \<and> i + d \<le> 2 * nat p \<and> accumulator G i = accumulator G (i + d)"
  proof (cases "i < j")
    case True
    with ij show ?thesis by (intro exI [of _ i] exI [of _ "j - i"]) simp
  next
    case False
    with ij have "j < i" by simp
    with ij show ?thesis by (intro exI [of _ j] exI [of _ "i - j"]) simp
  qed
  then obtain i d where d: "0 < d" "i + d \<le> 2 * nat p"
    "accumulator G i = accumulator G (i + d)" by blast
  from accumulator_shift [OF pr ns G d(3)] have ret: "accumulator G d = Inr G" by simp
  from d(1) obtain e where e: "d = Suc e" by (cases d) simp_all
  from accumulator_reduced [OF pr G(1), of e]
  obtain R where R: "accumulator G e = Inr R" "reduced_point a b p R" by blast
  from ret e R(1) have a1: "Point_add R G = Inr G" by simp
  have a2: "Point_add ?O G = Inr G" using G(1) by (simp add: Point_add_def reduced_point_def)
  from Point_add_inj [OF pr ns R(2) O G a1 a2] have "R = ?O" .
  with R(1) have "accumulator G e = Inr ?O" by simp
  moreover have "e \<le> 2 * nat p" using d(2) e by simp
  ultimately show False using first by blast
qed

text \<open>
  On a non-singular curve over an odd prime the search finds an order for every point
  with reduced coordinates: adding \<open>G\<close> is a one-to-one map on the at most \<open>2p + 1\<close>
  points of the curve, so the accumulator comes to the identity within \<open>2p\<close> additions.
\<close>

lemma find_order_reduced:
  assumes pr: "odd_prime p" and ns: "\<not> p dvd (4 * a ^ 3 + 27 * b ^ 2)"
    and G: "reduced_point a b p G" "Px G \<noteq> None"
  shows "\<exists>k n. 1 \<le> k \<and> int k \<le> 2 * p \<and>
           accumulator G k = Inr \<lparr>Px = None, Py = None, Pa = a, Pb = b, Pp = p\<rparr> \<and>
           no_identity_before G \<lparr>Px = None, Py = None, Pa = a, Pb = b, Pp = p\<rparr> k \<and>
           find_order_brute_force clk G = Inr (Some (int k + 1), clk n - clk 0)"
proof -
  let ?O = "\<lparr>Px = None, Py = None, Pa = a, Pb = b, Pp = p\<rparr>"
  from pr have p: "2 < p" by (rule odd_prime_gt)
  from G(1) have par: "Pa G = a" "Pb G = b" "Pp G = p" by (simp_all add: reduced_point_def)
  define k where "k = (LEAST k. 1 \<le> k \<and> accumulator G k = Inr ?O)"
  from accumulator_returns [OF pr ns G]
  obtain k0 where k0: "1 \<le> k0 \<and> accumulator G k0 = Inr ?O" and k0le: "k0 \<le> 2 * nat p" by blast
  from k0 have k: "1 \<le> k \<and> accumulator G k = Inr ?O" unfolding k_def by (rule LeastI)
  from k0 have "k \<le> k0" unfolding k_def by (rule Least_le)
  with k0le p have kle: "int k \<le> 2 * p" by simp
  have before: "no_identity_before G ?O k"
    unfolding no_identity_before_def
  proof
    fix j assume "j \<in> {1..<k}"
    then have j: "1 \<le> j" "j < k" by simp_all
    from accumulator_reduced [OF pr G(1), of j]
    obtain R where R: "accumulator G j = Inr R" by blast
    have "R \<noteq> ?O"
    proof
      assume "R = ?O"
      with R j(1) have "1 \<le> j \<and> accumulator G j = Inr ?O" by simp
      then have "k \<le> j" unfolding k_def by (rule Least_le)
      with j(2) show False by simp
    qed
    with R show "case accumulator G j of Inl e \<Rightarrow> False
                 | Inr R \<Rightarrow> \<not> Point_eq R (PyPoint ?O)"
      by (simp add: Point_eq_iff)
  qed
  have cap: "int k \<le> 2 * p + 2" using kle by simp
  have idn: "Point_eq ?O (PyPoint ?O)" by (simp add: Point_eq_iff)
  from k have k1: "1 \<le> k" and acc: "accumulator G k = Inr ?O" by simp_all
  from order_loop_outcomes(2) [OF k1 cap before acc idn, of clk]
  obtain n where "order_loop clk G ?O (2 * p + 2) G 1 1 = Inr (Some (int k + 1), clk n - clk 0)"
    by blast
  then have "find_order_brute_force clk G = Inr (Some (int k + 1), clk n - clk 0)"
    by (simp add: find_order_brute_force_loop [OF G(2)] par)
  with k1 kle acc before show ?thesis by blast
qed

text \<open>
  Claim C7: the search is bounded by \<open>max_iterations = 2p + 2\<close>; what it returns is fixed
  by the first of the additions number 1 to \<open>2p + 2\<close> that raises or gives the identity.
  \<^item> The identity yields order 1 at once, with elapsed time \<open>0.0\<close>.
  \<^item> If every one of the \<open>2p + 2\<close> additions returns a point other than the identity,
    the function returns \<open>None\<close> with the elapsed time: a value, not an error.
  \<^item> If addition number \<open>k \<le> 2p + 2\<close> is the first to give the identity, the function
    returns the order \<open>k + 1\<close> with the elapsed time.
  \<^item> If addition number \<open>k \<le> 2p + 2\<close> raises before any addition has given the
    identity, the function raises the same error.
  \<^item> An order that is returned lies between 2 and \<open>2p + 3\<close>.
  \<^item> The loop under any value of \<open>max_iterations\<close> returns \<open>None\<close> when every addition
    that the cap allows returns a point other than the identity.
  \<^item> For a point other than the identity with coordinates in \<open>0 .. p - 1\<close>, on a
    non-singular curve over an odd prime \<open>p\<close>, an addition number \<open>j \<le> 2p\<close> gives the
    identity and none raises before: the function returns an order between 2 and
    \<open>2p + 1\<close>, and the cap is not reached.

  A point with \<open>x\<close> present falls under exactly one of the second, third and fourth
  part. By the last part the second is out of reach for the points of a valid curve; it
  is met by an object with \<open>p \<le> -1\<close>, whose cap allows no addition.
\<close>

theorem find_order_brute_force_cap:
  "(Px G = None \<longrightarrow> find_order_brute_force clk G = Inr (Some 1, 0)) \<and>
   (Px G \<noteq> None \<and>
    no_identity_before G \<lparr>Px = None, Py = None, Pa = Pa G, Pb = Pb G, Pp = Pp G\<rparr>
      (Suc (nat (2 * Pp G + 2))) \<longrightarrow>
      (\<exists>n. find_order_brute_force clk G = Inr (None, clk n - clk 0))) \<and>
   (Px G \<noteq> None \<and> 1 \<le> k \<and> int k \<le> 2 * Pp G + 2 \<and>
    no_identity_before G \<lparr>Px = None, Py = None, Pa = Pa G, Pb = Pb G, Pp = Pp G\<rparr> k \<and>
    accumulator G k = Inr R \<and>
    Point_eq R (PyPoint \<lparr>Px = None, Py = None, Pa = Pa G, Pb = Pb G, Pp = Pp G\<rparr>) \<longrightarrow>
      (\<exists>n. find_order_brute_force clk G = Inr (Some (int k + 1), clk n - clk 0))) \<and>
   (Px G \<noteq> None \<and> 1 \<le> k \<and> int k \<le> 2 * Pp G + 2 \<and>
    no_identity_before G \<lparr>Px = None, Py = None, Pa = Pa G, Pb = Pb G, Pp = Pp G\<rparr> k \<and>
    accumulator G k = Inl e \<longrightarrow>
      find_order_brute_force clk G = Inl e) \<and>
   (Px G \<noteq> None \<and> find_order_brute_force clk G = Inr (Some m, t) \<longrightarrow>
      2 \<le> m \<and> m \<le> 2 * Pp G + 3) \<and>
   (no_identity_before G Oid (Suc (nat max_iterations)) \<longrightarrow>
      (\<exists>n. order_loop clk G Oid max_iterations G 1 1 = Inr (None, clk n - clk 0))) \<and>
   (odd_prime p \<and> \<not> p dvd (4 * a ^ 3 + 27 * b ^ 2) \<and> reduced_point a b p G \<and> Px G \<noteq> None \<longrightarrow>
      (\<exists>j n. 1 \<le> j \<and> int j \<le> 2 * p \<and>
         accumulator G j = Inr \<lparr>Px = None, Py = None, Pa = a, Pb = b, Pp = p\<rparr> \<and>
         no_identity_before G \<lparr>Px = None, Py = None, Pa = a, Pb = b, Pp = p\<rparr> j \<and>
         find_order_brute_force clk G = Inr (Some (int j + 1), clk n - clk 0)))"
proof -
  let ?O = "\<lparr>Px = None, Py = None, Pa = Pa G, Pb = Pb G, Pp = Pp G\<rparr>"
  note f = find_order_brute_force_loop
  have part1: "Px G = None \<longrightarrow> find_order_brute_force clk G = Inr (Some 1, 0)"
    by (simp add: find_order_brute_force_def)
  have part2: "\<exists>n. find_order_brute_force clk G = Inr (None, clk n - clk 0)"
    if "Px G \<noteq> None" "no_identity_before G ?O (Suc (nat (2 * Pp G + 2)))"
    using order_loop_exhausted [OF that(2), of clk] f [OF that(1), of clk] by simp
  have part3: "\<exists>n. find_order_brute_force clk G = Inr (Some (int k + 1), clk n - clk 0)"
    if "Px G \<noteq> None" "1 \<le> k" "int k \<le> 2 * Pp G + 2" "no_identity_before G ?O k"
      "accumulator G k = Inr R" "Point_eq R (PyPoint ?O)"
    using order_loop_outcomes(2) [OF that(2-6), of clk] f [OF that(1), of clk] by simp
  have part4: "find_order_brute_force clk G = Inl e"
    if "Px G \<noteq> None" "1 \<le> k" "int k \<le> 2 * Pp G + 2" "no_identity_before G ?O k"
      "accumulator G k = Inl e"
    using order_loop_outcomes(1) [OF that(2-5), of clk] f [OF that(1), of clk] by simp
  have part5: "2 \<le> m \<and> m \<le> 2 * Pp G + 3"
    if "Px G \<noteq> None" "find_order_brute_force clk G = Inr (Some m, t)"
    using order_loop_bound [of clk G ?O "2 * Pp G + 2" G 1 1 m t] that f [OF that(1), of clk] by simp
  have part6: "\<exists>n. order_loop clk G Oid max_iterations G 1 1 = Inr (None, clk n - clk 0)"
    if "no_identity_before G Oid (Suc (nat max_iterations))"
    using order_loop_exhausted [OF that, of clk] .
  have part7: "\<exists>j n. 1 \<le> j \<and> int j \<le> 2 * p \<and>
         accumulator G j = Inr \<lparr>Px = None, Py = None, Pa = a, Pb = b, Pp = p\<rparr> \<and>
         no_identity_before G \<lparr>Px = None, Py = None, Pa = a, Pb = b, Pp = p\<rparr> j \<and>
         find_order_brute_force clk G = Inr (Some (int j + 1), clk n - clk 0)"
    if "odd_prime p" "\<not> p dvd (4 * a ^ 3 + 27 * b ^ 2)" "reduced_point a b p G" "Px G \<noteq> None"
    using find_order_reduced [OF that, of clk] .
  from part1 part2 part3 part4 part5 part6 part7 show ?thesis by blast
qed

theorem find_order_brute_force_cap_witness:
  "find_order_brute_force int \<lparr>Px = None, Py = None, Pa = 1, Pb = 1, Pp = 23\<rparr> = Inr (Some 1, 0) \<and>
   (\<exists>n. find_order_brute_force int \<lparr>Px = Some 3, Py = Some 10, Pa = 1, Pb = 1, Pp = - 1\<rparr>
          = Inr (None, int n - int 0)) \<and>
   Point_init (Some 3) (Some 10) 1 1 23 = Inr \<lparr>Px = Some 3, Py = Some 10, Pa = 1, Pb = 1, Pp = 23\<rparr> \<and>
   no_identity_before \<lparr>Px = Some 3, Py = Some 10, Pa = 1, Pb = 1, Pp = 23\<rparr>
     \<lparr>Px = None, Py = None, Pa = 1, Pb = 1, Pp = 23\<rparr> 27 \<and>
   accumulator \<lparr>Px = Some 3, Py = Some 10, Pa = 1, Pb = 1, Pp = 23\<rparr> 27
     = Inr \<lparr>Px = None, Py = None, Pa = 1, Pb = 1, Pp = 23\<rparr> \<and>
   (\<exists>n. find_order_brute_force int \<lparr>Px = Some 3, Py = Some 10, Pa = 1, Pb = 1, Pp = 23\<rparr>
          = Inr (Some 28, int n - int 0)) \<and>
   Point_init (Some 26) (Some 10) 1 1 23 = Inr \<lparr>Px = Some 26, Py = Some 10, Pa = 1, Pb = 1, Pp = 23\<rparr> \<and>
   no_identity_before \<lparr>Px = Some 26, Py = Some 10, Pa = 1, Pb = 1, Pp = 23\<rparr>
     \<lparr>Px = None, Py = None, Pa = 1, Pb = 1, Pp = 23\<rparr> 27 \<and>
   accumulator \<lparr>Px = Some 26, Py = Some 10, Pa = 1, Pb = 1, Pp = 23\<rparr> 27 = Inl NoInverseError \<and>
   find_order_brute_force int \<lparr>Px = Some 26, Py = Some 10, Pa = 1, Pb = 1, Pp = 23\<rparr>
     = Inl NoInverseError \<and>
   Point_init (Some 0) (Some 1) 1 1 211 = Inr \<lparr>Px = Some 0, Py = Some 1, Pa = 1, Pb = 1, Pp = 211\<rparr> \<and>
   find_order_brute_force int \<lparr>Px = Some 0, Py = Some 1, Pa = 1, Pb = 1, Pp = 211\<rparr>
     = Inr (Some 223, 1) \<and>
   (2::int) \<le> 223 \<and> (223::int) \<le> 2 * 211 + 3 \<and>
   no_identity_before \<lparr>Px = Some 3, Py = Some 10, Pa = 1, Pb = 1, Pp = 23\<rparr>
     \<lparr>Px = None, Py = None, Pa = 1, Pb = 1, Pp = 23\<rparr> (Suc (nat 26)) \<and>
   (\<exists>n. order_loop int \<lparr>Px = Some 3, Py = Some 10, Pa = 1, Pb = 1, Pp = 23\<rparr>
            \<lparr>Px = None, Py = None, Pa = 1, Pb = 1, Pp = 23\<rparr> 26
            \<lparr>Px = Some 3, Py = Some 10, Pa = 1, Pb = 1, Pp = 23\<rparr> 1 1 = Inr (None, int n - int 0)) \<and>
   odd_prime 211 \<and> \<not> (211::int) dvd (4 * 1 ^ 3 + 27 * 1 ^ 2) \<and>
   reduced_point 1 1 211 \<lparr>Px = Some 0, Py = Some 1, Pa = 1, Pb = 1, Pp = 211\<rparr> \<and>
   (\<exists>j n. 1 \<le> j \<and> int j \<le> 2 * 211 \<and>
      accumulator \<lparr>Px = Some 0, Py = Some 1, Pa = 1, Pb = 1, Pp = 211\<rparr> j
        = Inr \<lparr>Px = None, Py = None, Pa = 1, Pb = 1, Pp = 211\<rparr> \<and>
      no_identity_before \<lparr>Px = Some 0, Py = Some 1, Pa = 1, Pb = 1, Pp = 211\<rparr>
        \<lparr>Px = None, Py = None, Pa = 1, Pb = 1, Pp = 211\<rparr> j \<and>
      find_order_brute_force int \<lparr>Px = Some 0, Py = Some 1, Pa = 1, Pb = 1, Pp = 211\<rparr>
        = Inr (Some (int j + 1), int n - int 0))"
proof -
  let ?G = "\<lparr>Px = Some 3, Py = Some 10, Pa = 1, Pb = 1, Pp = 23\<rparr>"
  let ?O = "\<lparr>Px = None, Py = None, Pa = 1, Pb = 1, Pp = 23\<rparr>"
  let ?N = "\<lparr>Px = Some 3, Py = Some 10, Pa = 1, Pb = 1, Pp = - 1\<rparr>"
  let ?U = "\<lparr>Px = Some 26, Py = Some 10, Pa = 1, Pb = 1, Pp = 23\<rparr>"
  let ?H = "\<lparr>Px = Some 0, Py = Some 1, Pa = 1, Pb = 1, Pp = 211\<rparr>"
  have w1: "find_order_brute_force int ?O = Inr (Some 1, 0)"
    using find_order_brute_force_cap [where G = ?O and clk = int] by simp
  have w2: "\<exists>n. find_order_brute_force int ?N = Inr (None, int n - int 0)"
    using find_order_brute_force_cap [where G = ?N and clk = int]
    by (simp add: no_identity_before_def)
  have iG: "Point_init (Some 3) (Some 10) 1 1 23 = Inr ?G" by code_simp
  have nG: "no_identity_before ?G ?O 27" by code_simp
  have aG: "accumulator ?G 27 = Inr ?O" by code_simp
  have w3: "\<exists>n. find_order_brute_force int ?G = Inr (Some 28, int n - int 0)"
    using find_order_brute_force_cap [where G = ?G and clk = int and k = 27 and R = ?O] nG aG
    by (simp add: Point_eq_def)
  have iU: "Point_init (Some 26) (Some 10) 1 1 23 = Inr ?U" by code_simp
  have nU: "no_identity_before ?U ?O 27" by code_simp
  have aU: "accumulator ?U 27 = Inl NoInverseError" by code_simp
  have w4: "find_order_brute_force int ?U = Inl NoInverseError"
    using find_order_brute_force_cap [where G = ?U and clk = int and k = 27
        and e = NoInverseError] nU aU
    by simp
  have iH: "Point_init (Some 0) (Some 1) 1 1 211 = Inr ?H" by code_simp
  have eH: "find_order_brute_force int ?H = Inr (Some 223, 1)" by code_simp
  have w5: "(2::int) \<le> 223 \<and> (223::int) \<le> 2 * 211 + 3"
    using find_order_brute_force_cap [where G = ?H and clk = int and m = 223 and t = 1] eH
    by simp
  have nL: "no_identity_before ?G ?O (Suc (nat 26))" using nG by simp
  have w6: "\<exists>n. order_loop int ?G ?O 26 ?G 1 1 = Inr (None, int n - int 0)"
    using find_order_brute_force_cap [where G = ?G and clk = int and Oid = ?O
        and max_iterations = 26] nL
    by blast
  have pH: "odd_prime 211" by code_simp
  have sH: "\<not> (211::int) dvd (4 * 1 ^ 3 + 27 * 1 ^ 2)" by simp
  have rH: "reduced_point 1 1 211 ?H" by code_simp
  have w7: "\<exists>j n. 1 \<le> j \<and> int j \<le> 2 * 211 \<and>
      accumulator ?H j = Inr \<lparr>Px = None, Py = None, Pa = 1, Pb = 1, Pp = 211\<rparr> \<and>
      no_identity_before ?H \<lparr>Px = None, Py = None, Pa = 1, Pb = 1, Pp = 211\<rparr> j \<and>
      find_order_brute_force int ?H = Inr (Some (int j + 1), int n - int 0)"
    using find_order_brute_force_cap [where G = ?H and clk = int and p = 211 and a = 1 and b = 1] pH sH rH
    by simp
  from w1 w2 iG nG aG w3 iU nU aU w4 iH eH w5 nL w6 pH sH rH w7 show ?thesis by blast
qed

subsection \<open>Points whose coordinates are not reduced modulo \<open>p\<close>\<close>

text \<open>
  \<open>Point.__init__\<close> checks the curve equation modulo \<open>p\<close> and stores \<open>x\<close> and \<open>y\<close> as
  given, so it accepts a coordinate outside \<open>0 .. p - 1\<close>; \<open>__add__\<close> then compares
  the stored \<open>y\<close> with a reduced value.

  Claim C3 at \<open>P = Point(3, 10, 1, 1, 23)\<close> and \<open>Q = Point(3, -10, 1, 1, 23)\<close>, both
  accepted on the non-singular curve \<open>y\<^sup>2 = x\<^sup>3 + x + 1\<close> over the odd prime 23:
  \<open>P + Q\<close> is the identity, and \<open>Q + P\<close> raises the \<open>ValueError\<close> of
  \<open>mod_inv(0, 23)\<close>, in the branch whose comment says that a zero denominator is handled
  by the case \<open>P + (-P) = O\<close>. So \<open>P + Q == Q + P\<close> is not true there.
\<close>

theorem Point_add_unreduced:
  "odd_prime 23 \<and> validate_curve 1 1 23 \<and>
   Point_init (Some 3) (Some 10) 1 1 23 = Inr \<lparr>Px = Some 3, Py = Some 10, Pa = 1, Pb = 1, Pp = 23\<rparr> \<and>
   Point_init (Some 3) (Some (- 10)) 1 1 23
     = Inr \<lparr>Px = Some 3, Py = Some (- 10), Pa = 1, Pb = 1, Pp = 23\<rparr> \<and>
   Point_add \<lparr>Px = Some 3, Py = Some 10, Pa = 1, Pb = 1, Pp = 23\<rparr>
             \<lparr>Px = Some 3, Py = Some (- 10), Pa = 1, Pb = 1, Pp = 23\<rparr>
     = Inr \<lparr>Px = None, Py = None, Pa = 1, Pb = 1, Pp = 23\<rparr> \<and>
   Point_add \<lparr>Px = Some 3, Py = Some (- 10), Pa = 1, Pb = 1, Pp = 23\<rparr>
             \<lparr>Px = Some 3, Py = Some 10, Pa = 1, Pb = 1, Pp = 23\<rparr>
     = Inl NoInverseError"
  by code_simp

theorem Point_add_unreduced_witness:
  "Point_add \<lparr>Px = Some 3, Py = Some 10, Pa = 1, Pb = 1, Pp = 23\<rparr>
             \<lparr>Px = Some 3, Py = Some (- 10), Pa = 1, Pb = 1, Pp = 23\<rparr>
     \<noteq> Point_add \<lparr>Px = Some 3, Py = Some (- 10), Pa = 1, Pb = 1, Pp = 23\<rparr>
                   \<lparr>Px = Some 3, Py = Some 10, Pa = 1, Pb = 1, Pp = 23\<rparr>"
  using Point_add_unreduced by simp

text \<open>
  Claim C2 at \<open>G = Point(0, -6, 0, 1, 7)\<close>, accepted on the non-singular curve
  \<open>y\<^sup>2 = x\<^sup>3 + 1\<close> over \<open>p = 7\<close>: \<open>find_order_brute_force(G)\<close> returns the order 3, and
  \<open>3 * G\<close> raises the \<open>ValueError\<close> of \<open>mod_inv(0, 7)\<close> instead of giving the identity.
\<close>

theorem find_order_unreduced:
  "odd_prime 7 \<and> validate_curve 0 1 7 \<and>
   Point_init (Some 0) (Some (- 6)) 0 1 7 = Inr \<lparr>Px = Some 0, Py = Some (- 6), Pa = 0, Pb = 1, Pp = 7\<rparr> \<and>
   find_order_brute_force int \<lparr>Px = Some 0, Py = Some (- 6), Pa = 0, Pb = 1, Pp = 7\<rparr>
     = Inr (Some 3, 1) \<and>
   Point_rmul 3 \<lparr>Px = Some 0, Py = Some (- 6), Pa = 0, Pb = 1, Pp = 7\<rparr> = Inl NoInverseError"
  by code_simp

theorem find_order_unreduced_witness:
  "\<exists>n t. find_order_brute_force int \<lparr>Px = Some 0, Py = Some (- 6), Pa = 0, Pb = 1, Pp = 7\<rparr>
            = Inr (Some n, t) \<and>
          Point_rmul n \<lparr>Px = Some 0, Py = Some (- 6), Pa = 0, Pb = 1, Pp = 7\<rparr>
            \<noteq> Inr \<lparr>Px = None, Py = None, Pa = 0, Pb = 1, Pp = 7\<rparr>"
  using find_order_unreduced by simp

end
